theory Spec2Isabelle
  imports Main "HOL-Library.AList"
begin

section \<open>Python values and the object store\<close>

text \<open>
  The adapter in \<^verbatim>\<open>src/agent_poc/openai_client.py\<close> dispatches on the run-time shape
  of its arguments (\<^verbatim>\<open>isinstance(msg, dict)\<close>, \<^verbatim>\<open>hasattr(msg, 'role')\<close>) and mutates
  caller-supplied dictionaries in place. Values are therefore modelled as immediate
  values or references into an explicit store; dictionaries, lists and attribute-carrying
  objects live in the store, so that two references to one dictionary see the same
  update. A dictionary is an association list in insertion order with string keys (the
  only keys the code looks up); \<^verbatim>\<open>d[k] = v\<close> is \<open>AList.update\<close>, which overwrites an
  existing key in place and appends a new one. An address is an index into the store and
  allocation appends, so a fresh address is never one already in use. \<open>PFloat m e\<close> stands
  for the finite float \<open>m * 2^e\<close>; the code passes floats on and never computes with them.
  The accumulator lists of the code (\<^verbatim>\<open>formatted\<close>, \<^verbatim>\<open>content_blocks\<close>) are local
  until they are returned or stored, and enter the store at that point.
\<close>

datatype pyval =
    PNone
  | PBool bool
  | PInt int
  | PFloat int int
  | PStr string
  | PRef nat

datatype pyobj =
    OList "pyval list"
  | ODict "(string \<times> pyval) list"
  | OObj "(string \<times> pyval) list"

type_synonym heap = "pyobj list"

datatype error =
    ValueError string
  | KeyError string
  | IndexError
  | TypeError string
  | AttributeError string
  | BackendError string

definition alloc :: "heap \<Rightarrow> pyobj \<Rightarrow> heap \<times> pyval" where
  "alloc h ob = (h @ [ob], PRef (length h))"

text \<open>\<^verbatim>\<open>isinstance(v, dict)\<close>, giving the address and the entries.\<close>

definition dict_at :: "heap \<Rightarrow> pyval \<Rightarrow> (nat \<times> (string \<times> pyval) list) option" where
  "dict_at h v =
     (case v of
        PRef a \<Rightarrow>
          (if a < length h then (case h ! a of ODict e \<Rightarrow> Some (a, e) | _ \<Rightarrow> None) else None)
      | _ \<Rightarrow> None)"

text \<open>\<^verbatim>\<open>isinstance(v, list)\<close>, giving the elements.\<close>

definition list_at :: "heap \<Rightarrow> pyval \<Rightarrow> pyval list option" where
  "list_at h v =
     (case v of
        PRef a \<Rightarrow>
          (if a < length h then (case h ! a of OList xs \<Rightarrow> Some xs | _ \<Rightarrow> None) else None)
      | _ \<Rightarrow> None)"

text \<open>
  \<^verbatim>\<open>getattr(v, k)\<close>; \<open>None\<close> is \<^verbatim>\<open>hasattr(v, k) == False\<close>. Only attribute-carrying
  objects have the attributes the code asks for (\<^verbatim>\<open>role\<close>, \<^verbatim>\<open>content\<close>, \<^verbatim>\<open>text\<close>):
  no built-in value has them.
\<close>

definition getattr :: "heap \<Rightarrow> pyval \<Rightarrow> string \<Rightarrow> pyval option" where
  "getattr h v k =
     (case v of
        PRef a \<Rightarrow>
          (if a < length h then (case h ! a of OObj at \<Rightarrow> map_of at k | _ \<Rightarrow> None) else None)
      | _ \<Rightarrow> None)"

text \<open>\<^verbatim>\<open>d[k] = v\<close> on the dictionary stored at address \<open>a\<close>.\<close>

definition dict_setitem :: "heap \<Rightarrow> nat \<Rightarrow> string \<Rightarrow> pyval \<Rightarrow> heap" where
  "dict_setitem h a k v =
     (if a < length h
      then (case h ! a of ODict e \<Rightarrow> h[a := ODict (AList.update k v e)] | _ \<Rightarrow> h)
      else h)"

text \<open>
  \<^verbatim>\<open>str(v)\<close>. On a string it is the string itself. On any other value it is the
  interpreter's rendering, which for an object is not determined by the program (it shows
  a memory address); it is the parameter \<open>S\<close> of the model.
\<close>

type_synonym strfun = "heap \<Rightarrow> pyval \<Rightarrow> string"

definition py_str :: "strfun \<Rightarrow> heap \<Rightarrow> pyval \<Rightarrow> string" where
  "py_str S h v = (case v of PStr s \<Rightarrow> s | _ \<Rightarrow> S h v)"

section \<open>The adapter object and the backend\<close>

record OpenAIModel =
  model_name :: string
  temperature :: pyval
  max_tokens :: int
  client_api_key :: string

record request =
  req_model :: string
  req_messages :: "pyval list"
  req_temperature :: pyval
  req_max_tokens :: pyval
  req_stream :: bool
  req_extra :: "(string \<times> pyval) list"

text \<open>A chat completion: \<^verbatim>\<open>response.choices[i].message.content\<close> is an optional string.\<close>

record choice =
  message_content :: "string option"

record response =
  choices :: "choice list"

text \<open>
  A streamed chunk: \<open>ChunkNoChoices\<close> is a chunk without a \<^verbatim>\<open>choices\<close> attribute or
  whose \<^verbatim>\<open>choices\<close> is \<^verbatim>\<open>None\<close>; every choice has a \<^verbatim>\<open>delta\<close>, as the SDK's
  type says; \<^verbatim>\<open>chunk.choices[i].delta.content\<close> is an optional string, and the
  backend's reason for ending the stream travels in \<^verbatim>\<open>finish_reason\<close>.
\<close>

record chunk_choice =
  delta_content :: "string option"
  finish_reason :: "string option"

datatype chunk = ChunkNoChoices | Chunk "chunk_choice list"

text \<open>
  The backend is outside the repository: a non-streaming call answers with a response or
  raises; a streaming call raises, or hands out a stream that yields chunks and then
  either ends or raises.
\<close>

type_synonym backend = "heap \<Rightarrow> request \<Rightarrow> error + response"
type_synonym stream_backend = "heap \<Rightarrow> request \<Rightarrow> error + (chunk list \<times> error option)"

datatype stream_event =
    MessageStart string
  | ContentBlockStart "pyval" nat
  | ContentBlockDelta string nat
  | ContentBlockStop nat
  | MessageStop string pyval

text \<open>
  \<^verbatim>\<open>create(model=..., messages=..., ..., **extra)\<close>: a key of \<open>extra\<close> that repeats an
  explicit keyword is a \<^verbatim>\<open>TypeError\<close> at the call.
\<close>

definition duplicate_keyword :: "string list \<Rightarrow> (string \<times> pyval) list \<Rightarrow> string option" where
  "duplicate_keyword explicit extra =
     (case filter (\<lambda>k. k \<in> set explicit) (map fst extra) of [] \<Rightarrow> None | k # _ \<Rightarrow> Some k)"

definition kwargs_get :: "(string \<times> pyval) list \<Rightarrow> string \<Rightarrow> pyval \<Rightarrow> pyval" where
  "kwargs_get kwargs k d = (case map_of kwargs k of Some v \<Rightarrow> v | None \<Rightarrow> d)"

section \<open>\<^verbatim>\<open>OpenAIModel._format_messages\<close>\<close>

text \<open>One iteration of the loop: the dictionary appended to \<^verbatim>\<open>formatted\<close>.\<close>

definition format_message :: "strfun \<Rightarrow> heap \<Rightarrow> pyval \<Rightarrow> heap \<times> pyval" where
  "format_message S h msg =
     (case dict_at h msg of
        Some _ \<Rightarrow> (h, msg)
      | None \<Rightarrow>
          (case (getattr h msg ''role'', getattr h msg ''content'') of
             (Some r, Some c) \<Rightarrow> alloc h (ODict [(''role'', r), (''content'', c)])
           | _ \<Rightarrow> alloc h (ODict [(''role'', PStr ''user''), (''content'', PStr (py_str S h msg))])))"

fun format_messages_loop :: "strfun \<Rightarrow> heap \<Rightarrow> pyval list \<Rightarrow> pyval list \<Rightarrow> heap \<times> pyval list" where
  "format_messages_loop S h [] formatted = (h, formatted)"
| "format_messages_loop S h (msg # rest) formatted =
     (case format_message S h msg of
        (h', d) \<Rightarrow> format_messages_loop S h' rest (formatted @ [d]))"

definition format_messages :: "strfun \<Rightarrow> heap \<Rightarrow> pyval list \<Rightarrow> heap \<times> pyval list" where
  "format_messages S h messages = format_messages_loop S h messages []"

section \<open>\<^verbatim>\<open>OpenAIModel.generate\<close>\<close>

definition generate_request :: "OpenAIModel \<Rightarrow> pyval list \<Rightarrow> (string \<times> pyval) list \<Rightarrow> request" where
  "generate_request self formatted kwargs =
     \<lparr> req_model = model_name self,
       req_messages = formatted,
       req_temperature = kwargs_get kwargs ''temperature'' (temperature self),
       req_max_tokens = kwargs_get kwargs ''max_tokens'' (PInt (max_tokens self)),
       req_stream = False,
       req_extra = filter (\<lambda>(k, v). k \<notin> set [''temperature'', ''max_tokens'']) kwargs \<rparr>"

definition generate ::
  "backend \<Rightarrow> strfun \<Rightarrow> OpenAIModel \<Rightarrow> heap \<Rightarrow> pyval list \<Rightarrow> (string \<times> pyval) list
     \<Rightarrow> heap \<times> (error + string)" where
  "generate B S self h messages kwargs =
     (case format_messages S h messages of
        (h1, formatted) \<Rightarrow>
          (let req = generate_request self formatted kwargs in
           case duplicate_keyword [''model'', ''messages'', ''temperature'', ''max_tokens'']
                  (req_extra req) of
             Some k \<Rightarrow> (h1, Inl (TypeError k))
           | None \<Rightarrow>
               (case B h1 req of
                  Inl e \<Rightarrow> (h1, Inl e)
                | Inr resp \<Rightarrow>
                    (case choices resp of
                       [] \<Rightarrow> (h1, Inl IndexError)
                     | c # _ \<Rightarrow>
                         (case message_content c of
                            None \<Rightarrow> (h1, Inr '''')
                          | Some s \<Rightarrow> (h1, Inr (if s \<noteq> '''' then s else '''')))))))"

section \<open>\<^verbatim>\<open>OpenAIModel._format_messages_with_system\<close>\<close>

definition text_block :: "pyval \<Rightarrow> pyobj" where
  "text_block t = ODict [(''type'', PStr ''text''), (''text'', t)]"

text \<open>
  \<^verbatim>\<open>if 'type' not in block and 'text' in block: block['type'] = 'text'\<close>, on the
  dictionary at address \<open>a\<close> whose entries are \<open>e\<close>.
\<close>

definition ensure_type :: "heap \<Rightarrow> nat \<Rightarrow> (string \<times> pyval) list \<Rightarrow> heap" where
  "ensure_type h a e =
     (if ''type'' \<notin> fst ` set e \<and> ''text'' \<in> fst ` set e
      then dict_setitem h a ''type'' (PStr ''text'') else h)"

text \<open>The block loop of the branch for messages with attributes (source lines 205 to 216).\<close>

definition normalize_block_attr :: "strfun \<Rightarrow> heap \<Rightarrow> pyval \<Rightarrow> heap \<times> pyval" where
  "normalize_block_attr S h block =
     (case getattr h block ''text'' of
        Some t \<Rightarrow> alloc h (text_block t)
      | None \<Rightarrow>
          (case dict_at h block of
             Some (a, e) \<Rightarrow> (ensure_type h a e, block)
           | None \<Rightarrow> alloc h (text_block (PStr (py_str S h block)))))"

fun blocks_loop_attr :: "strfun \<Rightarrow> heap \<Rightarrow> pyval list \<Rightarrow> pyval list \<Rightarrow> heap \<times> pyval list" where
  "blocks_loop_attr S h [] content_blocks = (h, content_blocks)"
| "blocks_loop_attr S h (block # rest) content_blocks =
     (case normalize_block_attr S h block of
        (h', d) \<Rightarrow> blocks_loop_attr S h' rest (content_blocks @ [d]))"

text \<open>The block loop of the branch for dictionary messages (source lines 231 to 237).\<close>

definition normalize_block_dict :: "strfun \<Rightarrow> heap \<Rightarrow> pyval \<Rightarrow> heap \<times> pyval" where
  "normalize_block_dict S h block =
     (case dict_at h block of
        Some (a, e) \<Rightarrow> (ensure_type h a e, block)
      | None \<Rightarrow> alloc h (text_block (PStr (py_str S h block))))"

fun blocks_loop_dict :: "strfun \<Rightarrow> heap \<Rightarrow> pyval list \<Rightarrow> pyval list \<Rightarrow> heap \<times> pyval list" where
  "blocks_loop_dict S h [] content_blocks = (h, content_blocks)"
| "blocks_loop_dict S h (block # rest) content_blocks =
     (case normalize_block_dict S h block of
        (h', d) \<Rightarrow> blocks_loop_dict S h' rest (content_blocks @ [d]))"

text \<open>
  Source lines 219 to 222: the new message for a message with attributes whose content
  is a list. \<^verbatim>\<open>content_blocks[0]['text']\<close> raises \<^verbatim>\<open>KeyError\<close> on a dictionary
  without that key.
\<close>

definition collapse_blocks :: "heap \<Rightarrow> pyval \<Rightarrow> pyval list \<Rightarrow> heap \<times> (error + pyval)" where
  "collapse_blocks h r content_blocks =
     (let keep = (case alloc h (OList content_blocks) of
                    (h1, l) \<Rightarrow>
                      (case alloc h1 (ODict [(''role'', r), (''content'', l)]) of
                         (h2, d) \<Rightarrow> (h2, Inr d)))
      in case content_blocks of
           [b] \<Rightarrow>
             (case dict_at h b of
                None \<Rightarrow> (h, Inl (AttributeError ''get''))
              | Some (a, e) \<Rightarrow>
                  (if map_of e ''type'' = Some (PStr ''text'')
                   then (case map_of e ''text'' of
                           None \<Rightarrow> (h, Inl (KeyError ''text''))
                         | Some t \<Rightarrow>
                             (case alloc h (ODict [(''role'', r), (''content'', t)]) of
                                (h1, d) \<Rightarrow> (h1, Inr d)))
                   else keep))
         | _ \<Rightarrow> keep)"

text \<open>One iteration of the message loop (source lines 200 to 242).\<close>

definition format_message_with_system :: "strfun \<Rightarrow> heap \<Rightarrow> pyval \<Rightarrow> heap \<times> (error + pyval)" where
  "format_message_with_system S h msg =
     (case (getattr h msg ''role'', getattr h msg ''content'') of
        (Some r, Some c) \<Rightarrow>
          (case list_at h c of
             Some blocks \<Rightarrow>
               (case blocks_loop_attr S h blocks [] of
                  (h1, content_blocks) \<Rightarrow> collapse_blocks h1 r content_blocks)
           | None \<Rightarrow>
               (case alloc h (ODict [(''role'', r), (''content'', PStr (py_str S h c))]) of
                  (h1, d) \<Rightarrow> (h1, Inr d)))
      | _ \<Rightarrow>
          (case dict_at h msg of
             Some (m, e) \<Rightarrow>
               (case map_of e ''content'' of
                  Some c \<Rightarrow>
                    (case list_at h c of
                       Some blocks \<Rightarrow>
                         (case blocks_loop_dict S h blocks [] of
                            (h1, content_blocks) \<Rightarrow>
                              (case alloc h1 (OList content_blocks) of
                                 (h2, l) \<Rightarrow> (dict_setitem h2 m ''content'' l, Inr msg)))
                     | None \<Rightarrow> (h, Inr msg))
                | None \<Rightarrow> (h, Inr msg))
           | None \<Rightarrow>
               (case alloc h (ODict [(''role'', PStr ''user''), (''content'', PStr (py_str S h msg))]) of
                  (h1, d) \<Rightarrow> (h1, Inr d))))"

fun format_with_system_loop ::
  "strfun \<Rightarrow> heap \<Rightarrow> pyval list \<Rightarrow> pyval list \<Rightarrow> heap \<times> (error + pyval list)" where
  "format_with_system_loop S h [] formatted = (h, Inr formatted)"
| "format_with_system_loop S h (msg # rest) formatted =
     (case format_message_with_system S h msg of
        (h', Inl e) \<Rightarrow> (h', Inl e)
      | (h', Inr d) \<Rightarrow> format_with_system_loop S h' rest (formatted @ [d]))"

text \<open>The synthetic message of source line 196.\<close>

definition system_message :: "string \<Rightarrow> pyobj" where
  "system_message p = ODict [(''role'', PStr ''system''), (''content'', PStr p)]"

definition format_messages_with_system ::
  "strfun \<Rightarrow> heap \<Rightarrow> pyval list \<Rightarrow> string option \<Rightarrow> heap \<times> (error + pyval list)" where
  "format_messages_with_system S h messages system_prompt =
     (case system_prompt of
        None \<Rightarrow> format_with_system_loop S h messages []
      | Some p \<Rightarrow>
          (if p \<noteq> ''''
           then (case alloc h (system_message p) of
                   (h0, d) \<Rightarrow> format_with_system_loop S h0 messages [d])
           else format_with_system_loop S h messages []))"

section \<open>\<^verbatim>\<open>OpenAIModel.stream\<close>\<close>

definition stream_request :: "OpenAIModel \<Rightarrow> pyval list \<Rightarrow> (string \<times> pyval) list \<Rightarrow> request" where
  "stream_request self formatted kwargs =
     \<lparr> req_model = model_name self,
       req_messages = formatted,
       req_temperature = kwargs_get kwargs ''temperature'' (temperature self),
       req_max_tokens = kwargs_get kwargs ''max_tokens'' (PInt (max_tokens self)),
       req_stream = True,
       req_extra = filter (\<lambda>(k, v). k \<notin> set [''temperature'', ''max_tokens'', ''stream'']) kwargs \<rparr>"

text \<open>
  The body of \<^verbatim>\<open>for chunk in stream_response\<close>: the events one chunk makes the
  generator yield. An absent, \<^verbatim>\<open>None\<close> or empty \<^verbatim>\<open>choices\<close>, and an absent or empty
  \<^verbatim>\<open>delta.content\<close>, yield nothing.
\<close>

fun chunk_events :: "chunk \<Rightarrow> stream_event list" where
  "chunk_events ChunkNoChoices = []"
| "chunk_events (Chunk []) = []"
| "chunk_events (Chunk (c # _)) =
     (case delta_content c of
        None \<Rightarrow> []
      | Some s \<Rightarrow> (if s \<noteq> '''' then [ContentBlockDelta s 0] else []))"

fun chunks_loop :: "chunk list \<Rightarrow> stream_event list" where
  "chunks_loop [] = []"
| "chunks_loop (chunk # rest) = chunk_events chunk @ chunks_loop rest"

text \<open>
  A call of \<^verbatim>\<open>stream\<close> consumed to its end: the events yielded, in order, and the
  exception that ended the generator, if one did.
\<close>

definition stream ::
  "stream_backend \<Rightarrow> strfun \<Rightarrow> OpenAIModel \<Rightarrow> heap \<Rightarrow> pyval list \<Rightarrow> pyval option
     \<Rightarrow> string option \<Rightarrow> (string \<times> pyval) list \<Rightarrow> heap \<times> stream_event list \<times> error option" where
  "stream B S self h messages tool_specs system_prompt kwargs =
     (case format_messages_with_system S h messages system_prompt of
        (h1, Inl e) \<Rightarrow> (h1, [], Some e)
      | (h1, Inr formatted) \<Rightarrow>
          (let started = [MessageStart ''assistant'', ContentBlockStart PNone 0];
               req = stream_request self formatted kwargs
           in case duplicate_keyword
                     [''model'', ''messages'', ''temperature'', ''max_tokens'', ''stream'']
                     (req_extra req) of
                Some k \<Rightarrow> (h1, started, Some (TypeError k))
              | None \<Rightarrow>
                  (case B h1 req of
                     Inl e \<Rightarrow> (h1, started, Some e)
                   | Inr (chunks, Some e) \<Rightarrow> (h1, started @ chunks_loop chunks, Some e)
                   | Inr (chunks, None) \<Rightarrow>
                       (h1,
                        started @ chunks_loop chunks
                          @ [ContentBlockStop 0, MessageStop ''end_turn'' PNone],
                        None))))"

section \<open>\<^verbatim>\<open>OpenAIModel.structured_output\<close>\<close>


section \<open>\<^verbatim>\<open>create_openai_model\<close>\<close>

record OpenAIConfig =
  openai_api_key :: "string option"
  openai_model :: string
  openai_max_tokens :: int
  openai_temperature :: pyval

text \<open>What the constructor and the factory do besides returning: log lines and the
  construction of the SDK client (which alone could open a connection).\<close>

datatype effect = LogInfo string | ClientCreated string

definition OpenAIModel_init :: "string \<Rightarrow> string \<Rightarrow> pyval \<Rightarrow> int \<Rightarrow> effect list \<times> OpenAIModel" where
  "OpenAIModel_init model api_key temp maxtok =
     ([ClientCreated api_key, LogInfo (''Initialized OpenAI model: '' @ model)],
      \<lparr> model_name = model, temperature = temp, max_tokens = maxtok,
        client_api_key = api_key \<rparr>)"

definition create_openai_model :: "OpenAIConfig \<Rightarrow> effect list \<times> (error + OpenAIModel)" where
  "create_openai_model openai_config =
     (case openai_api_key openai_config of
        None \<Rightarrow>
          ([], Inl (ValueError
             ''OpenAI API key is required. Please set OPENAI_API_KEY in your .env file or environment variables.''))
      | Some key \<Rightarrow>
          (if key = ''''
           then ([], Inl (ValueError
             ''OpenAI API key is required. Please set OPENAI_API_KEY in your .env file or environment variables.''))
           else (case OpenAIModel_init (openai_model openai_config) key
                        (openai_temperature openai_config) (openai_max_tokens openai_config) of
                   (fx, model) \<Rightarrow>
                     (LogInfo (''Creating OpenAI model: '' @ openai_model openai_config) # fx,
                      Inr model))))"

section \<open>Reading the store\<close>

text \<open>
  Observations on a store, used to state what the formatting functions leave behind:
  whether a value refers to an allocated object, the entry of a dictionary, and the field
  of a message given either as a dictionary or as an object with attributes.
\<close>

definition valid_ref :: "heap \<Rightarrow> pyval \<Rightarrow> bool" where
  "valid_ref h v = (case v of PRef a \<Rightarrow> a < length h | _ \<Rightarrow> True)"

definition dict_get :: "heap \<Rightarrow> pyval \<Rightarrow> string \<Rightarrow> pyval option" where
  "dict_get h v k = (case dict_at h v of Some (a, e) \<Rightarrow> map_of e k | None \<Rightarrow> None)"

definition msg_field :: "heap \<Rightarrow> pyval \<Rightarrow> string \<Rightarrow> pyval option" where
  "msg_field h msg k =
     (case dict_at h msg of Some (a, e) \<Rightarrow> map_of e k | None \<Rightarrow> getattr h msg k)"

text \<open>A dictionary whose \<^verbatim>\<open>type\<close> entry is \<^verbatim>\<open>'text'\<close>.\<close>

definition text_tagged :: "heap \<Rightarrow> pyval \<Rightarrow> bool" where
  "text_tagged h v = (dict_get h v ''type'' = Some (PStr ''text''))"

text \<open>A dictionary with a \<^verbatim>\<open>text\<close> key and no \<^verbatim>\<open>type\<close> key.\<close>

definition untagged_text_dict :: "heap \<Rightarrow> pyval \<Rightarrow> bool" where
  "untagged_text_dict h v =
     (case dict_at h v of
        Some (a, e) \<Rightarrow> ''type'' \<notin> fst ` set e \<and> ''text'' \<in> fst ` set e
      | None \<Rightarrow> False)"

text \<open>
  \<open>xs\<close> is the block list \<open>bs\<close> of the store \<open>h0\<close> after normalisation, read in the store
  \<open>h\<close>: a block that was a dictionary is the same object, any other block has become a
  dictionary allocated since \<open>h0\<close> and tagged \<^verbatim>\<open>'text'\<close>.
\<close>

definition normalized_from :: "heap \<Rightarrow> heap \<Rightarrow> pyval list \<Rightarrow> pyval list \<Rightarrow> bool" where
  "normalized_from h0 h bs xs =
     (length xs = length bs
      \<and> (\<forall>i < length bs.
            (case dict_at h0 (bs ! i) of
               Some _ \<Rightarrow> xs ! i = bs ! i
             | None \<Rightarrow>
                 (case xs ! i of
                    PRef a \<Rightarrow> length h0 \<le> a \<and> text_tagged h (PRef a)
                  | _ \<Rightarrow> False))))"

text \<open>
  In the store \<open>h\<close> the \<^verbatim>\<open>content\<close> entry of the dictionary \<open>msg\<close> refers to a list
  object allocated since \<open>h0\<close> that holds the normalised blocks of \<open>bs\<close>.
\<close>

definition content_normalized :: "heap \<Rightarrow> pyval list \<Rightarrow> heap \<Rightarrow> pyval \<Rightarrow> bool" where
  "content_normalized h0 bs h msg =
     (case dict_get h msg ''content'' of
        Some (PRef l) \<Rightarrow>
          length h0 \<le> l
          \<and> (case list_at h (PRef l) of
                Some xs \<Rightarrow> normalized_from h0 h bs xs
              | None \<Rightarrow> False)
      | _ \<Rightarrow> False)"

text \<open>
  A block that the block loops turn into a dictionary of type \<^verbatim>\<open>'text'\<close>: a dictionary
  already of that type, a dictionary with a \<^verbatim>\<open>text\<close> key and no \<^verbatim>\<open>type\<close> key, or
  any value that is not a dictionary.
\<close>

definition text_block_input :: "heap \<Rightarrow> pyval \<Rightarrow> bool" where
  "text_block_input h b =
     (case dict_at h b of
        Some (a, e) \<Rightarrow>
          map_of e ''type'' = Some (PStr ''text'')
          \<or> (''type'' \<notin> fst ` set e \<and> ''text'' \<in> fst ` set e)
      | None \<Rightarrow> True)"

section \<open>How the store may change\<close>

text \<open>
  The relation between the store before and after a formatting step, used in the proofs:
  the store only grows; lists and objects with attributes are never written; a
  dictionary keeps its entries, except that a \<^verbatim>\<open>type\<close> entry \<^verbatim>\<open>'text'\<close> may be added
  to one that has a \<^verbatim>\<open>text\<close> key and no \<^verbatim>\<open>type\<close> key, and that the \<^verbatim>\<open>content\<close>
  entry of a dictionary whose address is in \<open>M\<close> may be replaced by a reference.
\<close>

definition dict_evolves :: "bool \<Rightarrow> (string \<times> pyval) list \<Rightarrow> (string \<times> pyval) list \<Rightarrow> bool" where
  "dict_evolves c e e' =
     (\<forall>k. map_of e' k = map_of e k
        \<or> (k = ''type'' \<and> map_of e k = None \<and> map_of e ''text'' \<noteq> None
             \<and> map_of e' k = Some (PStr ''text''))
        \<or> (c \<and> k = ''content'' \<and> map_of e k \<noteq> None \<and> (\<exists>l. map_of e' k = Some (PRef l))))"

fun obj_evolves :: "bool \<Rightarrow> pyobj \<Rightarrow> pyobj \<Rightarrow> bool" where
  "obj_evolves c (ODict e) ob' = (\<exists>e'. ob' = ODict e' \<and> dict_evolves c e e')"
| "obj_evolves c ob ob' = (ob' = ob)"

definition evolves :: "nat set \<Rightarrow> heap \<Rightarrow> heap \<Rightarrow> bool" where
  "evolves M h h' = (length h \<le> length h' \<and> (\<forall>a < length h. obj_evolves (a \<in> M) (h ! a) (h' ! a)))"

text \<open>A dictionary that the block loops leave tagged \<^verbatim>\<open>'text'\<close>.\<close>

definition taggable :: "heap \<Rightarrow> pyval \<Rightarrow> bool" where
  "taggable h v =
     (\<exists>a e. dict_at h v = Some (a, e)
        \<and> (map_of e ''type'' = Some (PStr ''text'')
             \<or> (map_of e ''type'' = None \<and> map_of e ''text'' \<noteq> None)))"

section \<open>Well-formed stores\<close>

text \<open>
  The values an object holds; a store is well formed when every reference held by one of
  its objects is allocated; an address is unreferenced when no object holds it.
\<close>

fun refs_of :: "pyobj \<Rightarrow> pyval list" where
  "refs_of (OList xs) = xs"
| "refs_of (ODict e) = map snd e"
| "refs_of (OObj at) = map snd at"

definition wf_heap :: "heap \<Rightarrow> bool" where
  "wf_heap h = (\<forall>ob \<in> set h. \<forall>v \<in> set (refs_of ob). valid_ref h v)"

definition unreferenced :: "heap \<Rightarrow> nat \<Rightarrow> bool" where
  "unreferenced h s = (\<forall>ob \<in> set h. PRef s \<notin> set (refs_of ob))"

section \<open>Example inputs\<close>

text \<open>Concrete inputs on which the theorems below are exercised.\<close>

definition example_str :: strfun where
  "example_str h v = ''<object>''"

definition example_model :: OpenAIModel where
  "example_model = \<lparr> model_name = ''gpt-4o'', temperature = PFloat 3 (- 2), max_tokens = 4096,
     client_api_key = ''sk-test'' \<rparr>"

definition example_config :: "string option \<Rightarrow> OpenAIConfig" where
  "example_config key = \<lparr> openai_api_key = key, openai_model = ''gpt-4o'',
     openai_max_tokens = 4096, openai_temperature = PFloat 3 (- 2) \<rparr>"

text \<open>The store holding the one message \<^verbatim>\<open>{'role': 'user', 'content': '2+2?'}\<close>.\<close>

definition example_store :: heap where
  "example_store = [ODict [(''role'', PStr ''user''), (''content'', PStr ''2+2?'')]]"

text \<open>A stream of four chunks, one of which carries text, cut off by the token limit.\<close>

definition example_stream_backend :: stream_backend where
  "example_stream_backend h req =
     Inr ([Chunk [\<lparr> delta_content = Some ''4'', finish_reason = None \<rparr>],
           ChunkNoChoices,
           Chunk [],
           Chunk [\<lparr> delta_content = None, finish_reason = Some ''length'' \<rparr>]], None)"

definition example_backend :: backend where
  "example_backend h req = Inr \<lparr> choices = [\<lparr> message_content = Some ''4'' \<rparr>] \<rparr>"

text \<open>
  A store holding the message \<^verbatim>\<open>{'role': 'user', 'content': [{'text': 'hi'}, 'there']}\<close>
  (address 2; its block list at address 1, the block dictionary at address 0), and the
  store after the streaming path has formatted that message.
\<close>

definition example_blocks_store :: heap where
  "example_blocks_store =
     [ODict [(''text'', PStr ''hi'')],
      OList [PRef 0, PStr ''there''],
      ODict [(''role'', PStr ''user''), (''content'', PRef 1)]]"

definition example_blocks_store_after :: heap where
  "example_blocks_store_after =
     [ODict [(''text'', PStr ''hi''), (''type'', PStr ''text'')],
      OList [PRef 0, PStr ''there''],
      ODict [(''role'', PStr ''user''), (''content'', PRef 4)],
      ODict [(''type'', PStr ''text''), (''text'', PStr ''there'')],
      OList [PRef 0, PRef 3]]"

text \<open>
  A store holding a message given as a dictionary (address 0) and a message given as an
  object with \<^verbatim>\<open>role\<close> and \<^verbatim>\<open>content\<close> attributes (address 1).
\<close>

definition example_dialogue_store :: heap where
  "example_dialogue_store =
     [ODict [(''role'', PStr ''user''), (''content'', PStr ''2+2?'')],
      OObj [(''role'', PStr ''assistant''), (''content'', PStr ''4'')]]"

text \<open>
  The message \<^verbatim>\<open>{'role': 'user', 'content': [{'text': 'hi'}]}\<close> given as a dictionary
  (address 2), before and after the streaming path has formatted it; and the same block
  list held by a message given as an object with \<^verbatim>\<open>role\<close> and \<^verbatim>\<open>content\<close>
  attributes.
\<close>

definition example_single_block_store :: heap where
  "example_single_block_store =
     [ODict [(''text'', PStr ''hi'')],
      OList [PRef 0],
      ODict [(''role'', PStr ''user''), (''content'', PRef 1)]]"

definition example_single_block_store_after :: heap where
  "example_single_block_store_after =
     [ODict [(''text'', PStr ''hi''), (''type'', PStr ''text'')],
      OList [PRef 0],
      ODict [(''role'', PStr ''user''), (''content'', PRef 3)],
      OList [PRef 0]]"

definition example_sibling_store :: heap where
  "example_sibling_store =
     [ODict [(''text'', PStr ''hi'')],
      OList [PRef 0],
      OObj [(''role'', PStr ''user''), (''content'', PRef 1)]]"

section \<open>Evaluation on concrete inputs\<close>

lemmas store_ops = alloc_def dict_at_def list_at_def getattr_def dict_setitem_def py_str_def
  ensure_type_def text_block_def system_message_def

lemmas fmt_defs = format_messages_def format_message_def format_messages_with_system_def
  format_message_with_system_def normalize_block_attr_def normalize_block_dict_def
  collapse_blocks_def

lemma example_stream:
  "stream example_stream_backend example_str example_model example_store [PRef 0] None None [] =
     (example_store,
      [MessageStart ''assistant'', ContentBlockStart PNone 0, ContentBlockDelta ''4'' 0,
       ContentBlockStop 0, MessageStop ''end_turn'' PNone], None)"
  by (simp add: stream_def stream_request_def duplicate_keyword_def example_stream_backend_def
        example_store_def store_ops fmt_defs)

section \<open>The streamed event sequence\<close>

lemma chunk_events_delta:
  "e \<in> set (chunk_events c) \<Longrightarrow> \<exists>s. e = ContentBlockDelta s 0"
  by (cases c rule: chunk_events.cases) (auto split: option.splits if_splits)

lemma chunks_loop_delta:
  "e \<in> set (chunks_loop cs) \<Longrightarrow> \<exists>s. e = ContentBlockDelta s 0"
  by (induction cs) (auto dest: chunk_events_delta)



text \<open>
  C10. Whatever the backend streams and however the call ends, a message-stop event that
  \<^verbatim>\<open>stream\<close> emits carries the stop reason \<^verbatim>\<open>end_turn\<close>; a call that runs to
  its end emits it last. The chunks' own \<^verbatim>\<open>finish_reason\<close> is never read.
\<close>

theorem stream_stop_reason:
  assumes "stream B S self h messages tool_specs system_prompt kwargs = (h', evs, err)"
  shows "(\<forall>r x. MessageStop r x \<in> set evs \<longrightarrow> r = ''end_turn'')
         \<and> (err = None \<longrightarrow> evs \<noteq> [] \<and> last evs = MessageStop ''end_turn'' PNone)"
  using assms
  by (auto simp: stream_def Let_def split: prod.splits sum.splits option.splits
           dest: chunks_loop_delta)

theorem stream_stop_reason_witness:
  "stream example_stream_backend example_str example_model example_store [PRef 0] None None [] =
     (example_store,
      [MessageStart ''assistant'', ContentBlockStart PNone 0, ContentBlockDelta ''4'' 0,
       ContentBlockStop 0, MessageStop ''end_turn'' PNone], None)
   \<and> last [MessageStart ''assistant'', ContentBlockStart PNone 0, ContentBlockDelta ''4'' 0,
       ContentBlockStop 0, MessageStop ''end_turn'' PNone] = MessageStop ''end_turn'' PNone"
  using example_stream stream_stop_reason [OF example_stream] by simp

section \<open>The factory\<close>

text \<open>
  C4. With an API key that is absent (\<^verbatim>\<open>None\<close>) or empty, \<^verbatim>\<open>create_openai_model\<close>
  raises \<^verbatim>\<open>ValueError\<close> having done nothing else: no log line, no SDK client, no
  model object.
\<close>

theorem create_openai_model_missing_key:
  assumes "openai_api_key cfg = None \<or> openai_api_key cfg = Some ''''"
  shows "create_openai_model cfg =
           ([], Inl (ValueError
             ''OpenAI API key is required. Please set OPENAI_API_KEY in your .env file or environment variables.''))"
  using assms by (auto simp: create_openai_model_def)

theorem create_openai_model_missing_key_witness:
  "openai_api_key (example_config None) = None
   \<and> create_openai_model (example_config None) =
       ([], Inl (ValueError
          ''OpenAI API key is required. Please set OPENAI_API_KEY in your .env file or environment variables.''))
   \<and> openai_api_key (example_config (Some '''')) = Some ''''
   \<and> create_openai_model (example_config (Some '''')) =
       ([], Inl (ValueError
          ''OpenAI API key is required. Please set OPENAI_API_KEY in your .env file or environment variables.''))"
  using create_openai_model_missing_key [of "example_config None"]
    create_openai_model_missing_key [of "example_config (Some '''')"]
  by (simp add: example_config_def)

section \<open>The non-streaming path\<close>

lemma duplicate_keyword_None:
  "duplicate_keyword explicit extra = None \<longleftrightarrow> (\<forall>k \<in> set explicit. k \<notin> fst ` set extra)"
proof -
  have "duplicate_keyword explicit extra = None
          \<longleftrightarrow> filter (\<lambda>k. k \<in> set explicit) (map fst extra) = []"
    by (simp add: duplicate_keyword_def split: list.splits)
  then show ?thesis by (auto simp: filter_empty_conv)
qed

lemma generate_no_duplicate:
  assumes "''model'' \<notin> fst ` set kwargs" "''messages'' \<notin> fst ` set kwargs"
  shows "duplicate_keyword [''model'', ''messages'', ''temperature'', ''max_tokens'']
           (req_extra (generate_request self formatted kwargs)) = None"
  using assms by (force simp: duplicate_keyword_None generate_request_def)

lemma example_format_messages:
  "format_messages example_str example_store [PRef 0] = (example_store, [PRef 0])"
  by (simp add: example_store_def store_ops fmt_defs)

text \<open>
  C2. When the backend answers the request that \<^verbatim>\<open>generate\<close> builds with a response
  holding at least one choice (and the caller's extra keyword arguments do not repeat
  \<^verbatim>\<open>model\<close> or \<^verbatim>\<open>messages\<close>), \<^verbatim>\<open>generate\<close> returns the content of the first
  choice when it is a string, and the empty string when it is \<^verbatim>\<open>None\<close>; an empty
  content is returned as the empty string.
\<close>

theorem generate_first_choice:
  assumes "''model'' \<notin> fst ` set kwargs" and "''messages'' \<notin> fst ` set kwargs"
    and "format_messages S h messages = (h1, formatted)"
    and "B h1 (generate_request self formatted kwargs) = Inr resp"
    and "choices resp = c # cs"
  shows "generate B S self h messages kwargs =
           (h1, Inr (case message_content c of None \<Rightarrow> '''' | Some s \<Rightarrow> s))"
  using assms(3-5) generate_no_duplicate [OF assms(1,2)]
  by (auto simp: generate_def Let_def split: option.splits)

theorem generate_first_choice_witness:
  "''model'' \<notin> fst ` set ([(''top_p'', PInt 1)] :: (string \<times> pyval) list)
   \<and> ''messages'' \<notin> fst ` set ([(''top_p'', PInt 1)] :: (string \<times> pyval) list)
   \<and> format_messages example_str example_store [PRef 0] = (example_store, [PRef 0])
   \<and> example_backend example_store (generate_request example_model [PRef 0] [(''top_p'', PInt 1)])
        = Inr \<lparr> choices = [\<lparr> message_content = Some ''4'' \<rparr>] \<rparr>
   \<and> generate example_backend example_str example_model example_store [PRef 0] [(''top_p'', PInt 1)]
        = (example_store, Inr ''4'')
   \<and> generate (\<lambda>h req. Inr \<lparr> choices = [\<lparr> message_content = None \<rparr>] \<rparr>) example_str example_model
         example_store [PRef 0] [] = (example_store, Inr '''')"
  using generate_first_choice [of "[(''top_p'', PInt 1)]" example_str example_store "[PRef 0]"
      example_store "[PRef 0]" example_backend example_model
      "\<lparr> choices = [\<lparr> message_content = Some ''4'' \<rparr>] \<rparr>" "\<lparr> message_content = Some ''4'' \<rparr>" "[]"]
    generate_first_choice [of "[]" example_str example_store "[PRef 0]"
      example_store "[PRef 0]" "\<lambda>h req. Inr \<lparr> choices = [\<lparr> message_content = None \<rparr>] \<rparr>" example_model
      "\<lparr> choices = [\<lparr> message_content = None \<rparr>] \<rparr>" "\<lparr> message_content = None \<rparr>" "[]"]
    example_format_messages
  by (simp add: example_backend_def)




section \<open>The fallback for unrecognised messages\<close>



section \<open>Frame lemmas for the store\<close>

lemma dict_at_Some: "dict_at h v = Some (a, e) \<longleftrightarrow> v = PRef a \<and> a < length h \<and> h ! a = ODict e"
  by (auto simp: dict_at_def split: pyval.splits pyobj.splits)

lemma list_at_Some: "list_at h v = Some xs \<longleftrightarrow> (\<exists>a. v = PRef a \<and> a < length h \<and> h ! a = OList xs)"
  by (auto simp: list_at_def split: pyval.splits pyobj.splits)

lemma getattr_Some:
  "getattr h v k = Some x \<longleftrightarrow> (\<exists>a at. v = PRef a \<and> a < length h \<and> h ! a = OObj at \<and> map_of at k = Some x)"
  by (auto simp: getattr_def split: pyval.splits pyobj.splits)

lemma dict_evolves_refl: "dict_evolves c e e"
  by (simp add: dict_evolves_def)

lemma obj_evolves_refl: "obj_evolves c ob ob"
  by (cases ob) (simp_all add: dict_evolves_refl)

lemma evolves_refl: "evolves M h h"
  by (simp add: evolves_def obj_evolves_refl)

lemma dict_evolves_mono: "dict_evolves c e e' \<Longrightarrow> (c \<longrightarrow> c') \<Longrightarrow> dict_evolves c' e e'"
  unfolding dict_evolves_def by blast

lemma obj_evolves_mono: "obj_evolves c ob ob' \<Longrightarrow> (c \<longrightarrow> c') \<Longrightarrow> obj_evolves c' ob ob'"
  by (cases ob) (auto intro: dict_evolves_mono)

lemma evolves_mono: "evolves M h h' \<Longrightarrow> M \<subseteq> M' \<Longrightarrow> evolves M' h h'"
  unfolding evolves_def by (meson obj_evolves_mono subsetD)

lemma dict_evolves_trans:
  assumes "dict_evolves c e e1" "dict_evolves c e1 e2"
  shows "dict_evolves c e e2"
  unfolding dict_evolves_def
proof
  fix k
  have tt: "''text'' \<noteq> ''type''" "''text'' \<noteq> ''content''" "''type'' \<noteq> ''content''" by simp_all
  from assms(1) have a: "\<And>k. map_of e1 k = map_of e k
        \<or> (k = ''type'' \<and> map_of e k = None \<and> map_of e ''text'' \<noteq> None
             \<and> map_of e1 k = Some (PStr ''text''))
        \<or> (c \<and> k = ''content'' \<and> map_of e k \<noteq> None \<and> (\<exists>l. map_of e1 k = Some (PRef l)))"
    unfolding dict_evolves_def by blast
  from assms(2) have b: "\<And>k. map_of e2 k = map_of e1 k
        \<or> (k = ''type'' \<and> map_of e1 k = None \<and> map_of e1 ''text'' \<noteq> None
             \<and> map_of e2 k = Some (PStr ''text''))
        \<or> (c \<and> k = ''content'' \<and> map_of e1 k \<noteq> None \<and> (\<exists>l. map_of e2 k = Some (PRef l)))"
    unfolding dict_evolves_def by blast
  have text_same: "map_of e1 ''text'' = map_of e ''text''"
    using a [of "''text''"] by simp
  show "map_of e2 k = map_of e k
        \<or> (k = ''type'' \<and> map_of e k = None \<and> map_of e ''text'' \<noteq> None
             \<and> map_of e2 k = Some (PStr ''text''))
        \<or> (c \<and> k = ''content'' \<and> map_of e k \<noteq> None \<and> (\<exists>l. map_of e2 k = Some (PRef l)))"
    using a [of k] b [of k] text_same by (elim disjE) auto
qed

lemma obj_evolves_trans:
  assumes "obj_evolves c ob ob1" "obj_evolves c ob1 ob2"
  shows "obj_evolves c ob ob2"
proof (cases ob)
  case (ODict e)
  with assms(1) obtain e1 where 1: "ob1 = ODict e1" "dict_evolves c e e1" by auto
  with assms(2) obtain e2 where 2: "ob2 = ODict e2" "dict_evolves c e1 e2" by auto
  show ?thesis using ODict 1 2 dict_evolves_trans [OF 1(2) 2(2)] by simp
qed (use assms in auto)

lemma evolves_trans: "evolves M h h1 \<Longrightarrow> evolves M h1 h2 \<Longrightarrow> evolves M h h2"
  unfolding evolves_def
  by (metis (no_types, lifting) le_trans less_le_trans obj_evolves_trans)

lemma evolves_trans':
  "evolves M h h1 \<Longrightarrow> evolves M' h1 h2 \<Longrightarrow> evolves (M \<union> M') h h2"
  by (rule evolves_trans [of "M \<union> M'" h h1 h2]) (auto intro: evolves_mono)

lemma evolves_append: "evolves M h (h @ obs)"
  by (simp add: evolves_def nth_append obj_evolves_refl)

lemma evolves_alloc: "evolves M h (h @ [ob])"
  by (rule evolves_append)

lemma dict_evolves_key:
  assumes "dict_evolves c e e'" "map_of e k \<noteq> None"
  shows "map_of e' k \<noteq> None"
proof -
  from assms(1) have "map_of e' k = map_of e k
        \<or> (k = ''type'' \<and> map_of e k = None \<and> map_of e ''text'' \<noteq> None
             \<and> map_of e' k = Some (PStr ''text''))
        \<or> (c \<and> k = ''content'' \<and> map_of e k \<noteq> None \<and> (\<exists>l. map_of e' k = Some (PRef l)))"
    unfolding dict_evolves_def by blast
  with assms(2) show ?thesis by auto
qed

lemma dict_evolves_same:
  assumes "dict_evolves c e e'" "map_of e k = Some v" "k = ''content'' \<longrightarrow> \<not> c"
  shows "map_of e' k = Some v"
proof -
  from assms(1) have "map_of e' k = map_of e k
        \<or> (k = ''type'' \<and> map_of e k = None \<and> map_of e ''text'' \<noteq> None
             \<and> map_of e' k = Some (PStr ''text''))
        \<or> (c \<and> k = ''content'' \<and> map_of e k \<noteq> None \<and> (\<exists>l. map_of e' k = Some (PRef l)))"
    unfolding dict_evolves_def by blast
  with assms(2,3) show ?thesis by auto
qed

lemma dict_evolves_type:
  assumes "dict_evolves c e e'" "map_of e ''type'' = None"
  shows "map_of e' ''type'' = None \<or> map_of e' ''type'' = Some (PStr ''text'')"
proof -
  from assms(1) have "map_of e' ''type'' = map_of e ''type''
        \<or> (map_of e ''type'' = None \<and> map_of e ''text'' \<noteq> None
             \<and> map_of e' ''type'' = Some (PStr ''text''))
        \<or> (c \<and> ''type'' = ''content'' \<and> map_of e ''type'' \<noteq> None
             \<and> (\<exists>l. map_of e' ''type'' = Some (PRef l)))"
    unfolding dict_evolves_def by blast
  with assms(2) show ?thesis by auto
qed

lemma evolves_update:
  assumes "a < length h" "obj_evolves (a \<in> M) (h ! a) ob"
  shows "evolves M h (h[a := ob])"
  using assms by (simp add: evolves_def nth_list_update obj_evolves_refl)

lemma dict_evolves_tag:
  assumes "''type'' \<notin> fst ` set e" "''text'' \<in> fst ` set e"
  shows "dict_evolves c e (AList.update ''type'' (PStr ''text'') e)"
proof -
  have "map_of e ''type'' = None" using assms(1) by (simp add: map_of_eq_None_iff)
  moreover have "map_of e ''text'' \<noteq> None" using assms(2) by (simp add: map_of_eq_None_iff)
  ultimately show ?thesis by (simp add: dict_evolves_def update_conv')
qed

lemma dict_evolves_content:
  assumes "map_of e ''content'' \<noteq> None"
  shows "dict_evolves True e (AList.update ''content'' (PRef l) e)"
  using assms by (simp add: dict_evolves_def update_conv')

lemma ensure_type_evolves:
  assumes "a < length h" "h ! a = ODict e"
  shows "evolves M h (ensure_type h a e)"
proof (cases "''type'' \<notin> fst ` set e \<and> ''text'' \<in> fst ` set e")
  case True
  then have "dict_evolves (a \<in> M) e (AList.update ''type'' (PStr ''text'') e)"
    by (intro dict_evolves_tag) simp_all
  then have "evolves M h (h[a := ODict (AList.update ''type'' (PStr ''text'') e)])"
    using assms by (intro evolves_update) simp_all
  then show ?thesis using True assms by (simp add: ensure_type_def dict_setitem_def)
next
  case False
  then show ?thesis by (auto simp: ensure_type_def evolves_refl)
qed

lemma normalize_block_dict_evolves:
  "normalize_block_dict S h b = (h1, d) \<Longrightarrow> evolves M h h1"
  by (auto simp: normalize_block_dict_def alloc_def dict_at_Some
           split: option.splits intro: ensure_type_evolves evolves_alloc)

lemma normalize_block_attr_evolves:
  "normalize_block_attr S h b = (h1, d) \<Longrightarrow> evolves M h h1"
  by (auto simp: normalize_block_attr_def alloc_def dict_at_Some
           split: option.splits intro: ensure_type_evolves evolves_alloc)

lemma blocks_loop_dict_evolves:
  "blocks_loop_dict S h bs acc = (h1, cbs) \<Longrightarrow> evolves M h h1"
proof (induction bs arbitrary: h acc)
  case Nil
  then show ?case by (simp add: evolves_refl)
next
  case (Cons b bs)
  then show ?case
    by (auto split: prod.splits dest!: normalize_block_dict_evolves [where M = M]
             intro: evolves_trans)
qed

lemma blocks_loop_attr_evolves:
  "blocks_loop_attr S h bs acc = (h1, cbs) \<Longrightarrow> evolves M h h1"
proof (induction bs arbitrary: h acc)
  case Nil
  then show ?case by (simp add: evolves_refl)
next
  case (Cons b bs)
  then show ?case
    by (auto split: prod.splits dest!: normalize_block_attr_evolves [where M = M]
             intro: evolves_trans)
qed

lemma evolves_length: "evolves M h h' \<Longrightarrow> length h \<le> length h'"
  by (simp add: evolves_def)

lemma evolves_valid_ref: "evolves M h h' \<Longrightarrow> valid_ref h v \<Longrightarrow> valid_ref h' v"
  by (auto simp: evolves_def valid_ref_def split: pyval.splits)

lemma evolves_list_at: "evolves M h h' \<Longrightarrow> list_at h v = Some xs \<Longrightarrow> list_at h' v = Some xs"
  by (fastforce simp: evolves_def list_at_Some)

lemma evolves_getattr: "evolves M h h' \<Longrightarrow> getattr h v k = Some x \<Longrightarrow> getattr h' v k = Some x"
  by (fastforce simp: evolves_def getattr_Some)

lemma evolves_dict_at:
  assumes "evolves M h h'" "dict_at h v = Some (a, e)"
  shows "\<exists>e'. dict_at h' v = Some (a, e') \<and> dict_evolves (a \<in> M) e e'"
proof -
  from assms(2) have v: "v = PRef a" "a < length h" "h ! a = ODict e"
    by (simp_all add: dict_at_Some)
  with assms(1) have "obj_evolves (a \<in> M) (ODict e) (h' ! a)" "a < length h'"
    by (auto simp: evolves_def)
  then show ?thesis using v by (auto simp: dict_at_Some)
qed

lemma evolves_not_dict:
  assumes "evolves M h h'" "valid_ref h v" "dict_at h v = None"
  shows "dict_at h' v = None"
proof (cases v)
  case (PRef a)
  with assms(2) have a: "a < length h" by (simp add: valid_ref_def)
  with assms(1) have ev: "obj_evolves (a \<in> M) (h ! a) (h' ! a)" by (simp add: evolves_def)
  from assms(3) PRef a have "\<forall>e. h ! a \<noteq> ODict e"
    by (auto simp: dict_at_def split: pyobj.splits)
  with ev have "h' ! a = h ! a" by (cases "h ! a") auto
  with \<open>\<forall>e. h ! a \<noteq> ODict e\<close> show ?thesis using PRef
    by (auto simp: dict_at_def split: pyobj.splits)
qed (simp_all add: dict_at_def)

lemma collapse_blocks_evolves:
  "collapse_blocks h r cbs = (h1, res) \<Longrightarrow> evolves M h h1"
  by (auto simp: collapse_blocks_def alloc_def Let_def evolves_refl
           split: list.splits option.splits if_splits prod.splits
           intro: evolves_append)

lemma dict_setitem_content_evolves:
  assumes "dict_at h (PRef m) = Some (m, e)" "map_of e ''content'' \<noteq> None"
  shows "evolves {m} h (dict_setitem h m ''content'' (PRef l))"
  using assms
  by (auto simp: dict_setitem_def dict_at_Some intro!: evolves_update dict_evolves_content)

text \<open>The dictionary branch on a message whose content is a list.\<close>

lemma getattr_dict: "dict_at h v = Some (a, e) \<Longrightarrow> getattr h v k = None"
  by (auto simp: dict_at_Some getattr_def)

lemma format_message_with_system_dict_list:
  assumes "dict_at h (PRef m) = Some (m, e)" "map_of e ''content'' = Some c"
    and "list_at h c = Some bs" "blocks_loop_dict S h bs [] = (h1, cbs)"
  shows "format_message_with_system S h (PRef m) =
           (dict_setitem (h1 @ [OList cbs]) m ''content'' (PRef (length h1)), Inr (PRef m))"
  using assms by (simp add: format_message_with_system_def getattr_dict alloc_def)

lemma format_message_with_system_evolves:
  assumes "format_message_with_system S h x = (h2, res)"
  shows "evolves {a. x = PRef a} h h2"
proof (cases "\<exists>r c. getattr h x ''role'' = Some r \<and> getattr h x ''content'' = Some c")
  case True
  then obtain r c where rc: "getattr h x ''role'' = Some r" "getattr h x ''content'' = Some c"
    by blast
  show ?thesis
  proof (cases "list_at h c")
    case None
    with rc assms show ?thesis
      by (auto simp: format_message_with_system_def alloc_def intro: evolves_alloc)
  next
    case (Some blocks)
    obtain h1 cbs where bl: "blocks_loop_attr S h blocks [] = (h1, cbs)" by fastforce
    with rc Some assms have "collapse_blocks h1 r cbs = (h2, res)"
      by (simp add: format_message_with_system_def)
    then show ?thesis
      using blocks_loop_attr_evolves [OF bl] collapse_blocks_evolves evolves_trans by blast
  qed
next
  case False
  then have nrc: "(case (getattr h x ''role'', getattr h x ''content'') of
                     (Some r, Some c) \<Rightarrow> f r c | _ \<Rightarrow> g) = g" for f and g :: "heap \<times> (error + pyval)"
    by (auto split: option.splits)
  show ?thesis
  proof (cases "dict_at h x")
    case None
    with assms show ?thesis
      unfolding format_message_with_system_def nrc
      by (auto simp: alloc_def intro: evolves_alloc)
  next
    case (Some me)
    then obtain m e where me: "dict_at h x = Some (m, e)" by (cases me) auto
    then have x: "x = PRef m" by (simp add: dict_at_Some)
    show ?thesis
    proof (cases "\<exists>c bs. map_of e ''content'' = Some c \<and> list_at h c = Some bs")
      case True
      then obtain c bs where c: "map_of e ''content'' = Some c" "list_at h c = Some bs" by blast
      obtain h1 cbs where bl: "blocks_loop_dict S h bs [] = (h1, cbs)" by fastforce
      have h2: "h2 = dict_setitem (h1 @ [OList cbs]) m ''content'' (PRef (length h1))"
        using format_message_with_system_dict_list [OF me [unfolded x] c bl] assms x by simp
      have e1: "evolves {m} h (h1 @ [OList cbs])"
        using blocks_loop_dict_evolves [OF bl] evolves_alloc evolves_trans by blast
      from evolves_dict_at [OF e1 me] obtain e' where
        e': "dict_at (h1 @ [OList cbs]) x = Some (m, e')" "dict_evolves (m \<in> {m}) e e'"
        by blast
      from e'(2) c(1) have "map_of e' ''content'' \<noteq> None"
        by (intro dict_evolves_key [OF e'(2)]) simp
      from dict_setitem_content_evolves [OF e'(1) [unfolded x] this]
      show ?thesis using e1 h2 x evolves_trans by auto
    next
      case False
      with me assms have "h2 = h"
        unfolding format_message_with_system_def nrc
        by (auto split: option.splits)
      then show ?thesis by (simp add: evolves_refl)
    qed
  qed
qed

lemma format_with_system_loop_evolves:
  "format_with_system_loop S h msgs acc = (h', res) \<Longrightarrow> evolves {a. PRef a \<in> set msgs} h h'"
proof (induction msgs arbitrary: h acc)
  case Nil
  then show ?case by (simp add: evolves_refl)
next
  case (Cons x msgs)
  obtain h1 r where st: "format_message_with_system S h x = (h1, r)" by fastforce
  have e1: "evolves {a. PRef a \<in> set (x # msgs)} h h1"
    by (rule evolves_mono [OF format_message_with_system_evolves [OF st]]) auto
  show ?case
  proof (cases r)
    case (Inl err)
    with Cons.prems st have "h' = h1" by simp
    with e1 show ?thesis by simp
  next
    case (Inr d)
    with Cons.prems st have "format_with_system_loop S h1 msgs (acc @ [d]) = (h', res)" by simp
    from Cons.IH [OF this] have "evolves {a. PRef a \<in> set (x # msgs)} h1 h'"
      by (rule evolves_mono) auto
    with e1 show ?thesis by (rule evolves_trans)
  qed
qed

section \<open>In-place mutation by the streaming path\<close>

lemma normalized_from_iff:
  "normalized_from h0 h bs xs \<longleftrightarrow>
     (length xs = length bs
      \<and> (\<forall>i < length bs.
            (dict_at h0 (bs ! i) \<noteq> None \<longrightarrow> xs ! i = bs ! i)
          \<and> (dict_at h0 (bs ! i) = None \<longrightarrow>
               (\<exists>a. xs ! i = PRef a \<and> length h0 \<le> a \<and> text_tagged h (PRef a)))))"
proof -
  have "(case dict_at h0 b of
           Some _ \<Rightarrow> x = b
         | None \<Rightarrow> (case x of PRef a \<Rightarrow> length h0 \<le> a \<and> text_tagged h (PRef a) | _ \<Rightarrow> False))
        \<longleftrightarrow> (dict_at h0 b \<noteq> None \<longrightarrow> x = b)
          \<and> (dict_at h0 b = None \<longrightarrow> (\<exists>a. x = PRef a \<and> length h0 \<le> a \<and> text_tagged h (PRef a)))"
    for b x
    by (auto split: option.splits pyval.splits)
  then show ?thesis by (simp add: normalized_from_def)
qed

lemma content_normalized_iff:
  "content_normalized h0 bs h msg \<longleftrightarrow>
     (\<exists>l xs. dict_get h msg ''content'' = Some (PRef l) \<and> length h0 \<le> l
        \<and> list_at h (PRef l) = Some xs \<and> normalized_from h0 h bs xs)"
  by (auto simp: content_normalized_def split: option.splits pyval.splits)

lemma untagged_taggable: "untagged_text_dict h v \<Longrightarrow> taggable h v"
  by (auto simp: untagged_text_dict_def taggable_def map_of_eq_None_iff split: option.splits)

lemma text_tagged_evolves:
  assumes "evolves M h h'" "text_tagged h v"
  shows "text_tagged h' v"
proof -
  from assms(2) obtain a e where ae: "dict_at h v = Some (a, e)"
      "map_of e ''type'' = Some (PStr ''text'')"
    by (auto simp: text_tagged_def dict_get_def split: option.splits)
  from evolves_dict_at [OF assms(1) ae(1)] obtain e' where
    e': "dict_at h' v = Some (a, e')" "dict_evolves (a \<in> M) e e'" by blast
  from dict_evolves_same [OF e'(2) ae(2)] have "map_of e' ''type'' = Some (PStr ''text'')"
    by simp
  with e'(1) show ?thesis by (simp add: text_tagged_def dict_get_def)
qed

lemma taggable_evolves:
  assumes "evolves M h h'" "taggable h v"
  shows "taggable h' v"
proof -
  from assms(2) obtain a e where ae: "dict_at h v = Some (a, e)"
      "map_of e ''type'' = Some (PStr ''text'')
         \<or> (map_of e ''type'' = None \<and> map_of e ''text'' \<noteq> None)"
    by (auto simp: taggable_def)
  from evolves_dict_at [OF assms(1) ae(1)] obtain e' where
    e': "dict_at h' v = Some (a, e')" "dict_evolves (a \<in> M) e e'" by blast
  have "map_of e' ''type'' = Some (PStr ''text'')
         \<or> (map_of e' ''type'' = None \<and> map_of e' ''text'' \<noteq> None)"
    using ae(2)
  proof
    assume "map_of e ''type'' = Some (PStr ''text'')"
    from dict_evolves_same [OF e'(2) this] show ?thesis by simp
  next
    assume a: "map_of e ''type'' = None \<and> map_of e ''text'' \<noteq> None"
    then obtain t where t: "map_of e ''text'' = Some t" by auto
    from dict_evolves_same [OF e'(2) t] have "map_of e' ''text'' \<noteq> None" by simp
    with dict_evolves_type [OF e'(2)] a show ?thesis by auto
  qed
  with e'(1) show ?thesis by (auto simp: taggable_def)
qed

lemma ensure_type_tags:
  assumes "a < length h" "h ! a = ODict e"
    and "map_of e ''type'' = Some (PStr ''text'')
           \<or> (map_of e ''type'' = None \<and> map_of e ''text'' \<noteq> None)"
  shows "text_tagged (ensure_type h a e) (PRef a)"
proof (cases "map_of e ''type''")
  case None
  with assms(3) have "''type'' \<notin> fst ` set e" "''text'' \<in> fst ` set e"
    by (simp_all add: map_of_eq_None_iff)
  then show ?thesis using assms(1,2)
    by (simp add: ensure_type_def dict_setitem_def text_tagged_def dict_get_def dict_at_def
          update_conv')
next
  case (Some v)
  then have "''type'' \<in> fst ` set e" by (metis map_of_eq_None_iff option.distinct(1))
  then show ?thesis using assms Some
    by (simp add: ensure_type_def text_tagged_def dict_get_def dict_at_def)
qed

lemma normalize_block_dict_tags:
  assumes "taggable h b" "normalize_block_dict S h b = (h1, d)"
  shows "text_tagged h1 b \<and> d = b"
proof -
  from assms(1) obtain a e where ae: "dict_at h b = Some (a, e)"
      "map_of e ''type'' = Some (PStr ''text'')
         \<or> (map_of e ''type'' = None \<and> map_of e ''text'' \<noteq> None)"
    by (auto simp: taggable_def)
  then have b: "b = PRef a" "a < length h" "h ! a = ODict e" by (simp_all add: dict_at_Some)
  from assms(2) ae(1) have "h1 = ensure_type h a e" "d = b"
    by (simp_all add: normalize_block_dict_def)
  with ensure_type_tags [OF b(2,3) ae(2)] b(1) show ?thesis by simp
qed

lemma blocks_loop_dict_tags:
  "b \<in> set bs \<Longrightarrow> taggable h b \<Longrightarrow> blocks_loop_dict S h bs acc = (h1, cbs)
     \<Longrightarrow> text_tagged h1 b"
proof (induction bs arbitrary: h acc)
  case Nil
  then show ?case by simp
next
  case (Cons x bs)
  obtain h' d where st: "normalize_block_dict S h x = (h', d)" by fastforce
  with Cons.prems have rest: "blocks_loop_dict S h' bs (acc @ [d]) = (h1, cbs)" by simp
  have ev: "evolves {} h h'" by (rule normalize_block_dict_evolves [OF st])
  show ?case
  proof (cases "b = x")
    case True
    with Cons.prems(2) st have "text_tagged h' b" by (auto dest: normalize_block_dict_tags)
    with blocks_loop_dict_evolves [OF rest] show ?thesis by (rule text_tagged_evolves)
  next
    case False
    with Cons.prems(1) have "b \<in> set bs" by simp
    moreover have "taggable h' b" using ev Cons.prems(2) by (rule taggable_evolves)
    ultimately show ?thesis using rest by (rule Cons.IH)
  qed
qed

lemma normalized_from_evolves:
  "normalized_from h0 h bs xs \<Longrightarrow> evolves M h h' \<Longrightarrow> normalized_from h0 h' bs xs"
  unfolding normalized_from_iff by (meson text_tagged_evolves)

lemma normalized_from_Cons:
  assumes "normalize_block_dict S h b = (h', d)" "normalized_from h' h1 bs ds"
    and "evolves M h' h1" "valid_ref h b" "\<forall>x \<in> set bs. valid_ref h x"
  shows "normalized_from h h1 (b # bs) (d # ds)"
proof -
  have ev: "evolves {} h h'" by (rule normalize_block_dict_evolves [OF assms(1)])
  have len: "length ds = length bs" using assms(2) by (simp add: normalized_from_iff)
  have head: "(dict_at h b \<noteq> None \<longrightarrow> d = b)
      \<and> (dict_at h b = None \<longrightarrow> (\<exists>a. d = PRef a \<and> length h \<le> a \<and> text_tagged h1 (PRef a)))"
  proof (cases "dict_at h b")
    case None
    with assms(1) have 1: "h' = h @ [text_block (PStr (py_str S h b))]" "d = PRef (length h)"
      by (simp_all add: normalize_block_dict_def alloc_def)
    then have "text_tagged h' d"
      by (simp add: text_tagged_def dict_get_def dict_at_def text_block_def)
    with assms(3) have "text_tagged h1 d" by (rule text_tagged_evolves)
    with None 1 show ?thesis by simp
  next
    case (Some ae)
    with assms(1) show ?thesis by (auto simp: normalize_block_dict_def split: prod.splits)
  qed
  have tail: "(dict_at h (bs ! i) \<noteq> None \<longrightarrow> ds ! i = bs ! i)
      \<and> (dict_at h (bs ! i) = None \<longrightarrow>
            (\<exists>a. ds ! i = PRef a \<and> length h \<le> a \<and> text_tagged h1 (PRef a)))"
    if i: "i < length bs" for i
  proof -
    from i assms(5) have v: "valid_ref h (bs ! i)" by simp
    from assms(2) i have n:
      "dict_at h' (bs ! i) \<noteq> None \<longrightarrow> ds ! i = bs ! i"
      "dict_at h' (bs ! i) = None \<longrightarrow>
         (\<exists>a. ds ! i = PRef a \<and> length h' \<le> a \<and> text_tagged h1 (PRef a))"
      by (simp_all add: normalized_from_iff)
    show ?thesis
    proof (cases "dict_at h (bs ! i)")
      case None
      from evolves_not_dict [OF ev v None] n(2) evolves_length [OF ev] None
      show ?thesis by auto
    next
      case (Some ae)
      then obtain a e where "dict_at h (bs ! i) = Some (a, e)" by (cases ae) auto
      from evolves_dict_at [OF ev this] n(1) Some show ?thesis by auto
    qed
  qed
  show ?thesis
    unfolding normalized_from_iff
  proof (intro conjI allI impI)
    show "length (d # ds) = length (b # bs)" using len by simp
  next
    fix i assume "i < length (b # bs)" "dict_at h ((b # bs) ! i) \<noteq> None"
    then show "(d # ds) ! i = (b # bs) ! i"
      using head tail by (cases i) auto
  next
    fix i assume "i < length (b # bs)" "dict_at h ((b # bs) ! i) = None"
    then show "\<exists>a. (d # ds) ! i = PRef a \<and> length h \<le> a \<and> text_tagged h1 (PRef a)"
      using head tail by (cases i) auto
  qed
qed

lemma blocks_loop_dict_out:
  "blocks_loop_dict S h bs acc = (h1, cbs) \<Longrightarrow> \<forall>b \<in> set bs. valid_ref h b
     \<Longrightarrow> \<exists>ds. cbs = acc @ ds \<and> normalized_from h h1 bs ds"
proof (induction bs arbitrary: h acc)
  case Nil
  then show ?case by (simp add: normalized_from_iff)
next
  case (Cons b bs)
  obtain h' d where st: "normalize_block_dict S h b = (h', d)" by fastforce
  with Cons.prems have rest: "blocks_loop_dict S h' bs (acc @ [d]) = (h1, cbs)" by simp
  have ev: "evolves {} h h'" by (rule normalize_block_dict_evolves [OF st])
  have "\<forall>x \<in> set bs. valid_ref h' x"
    using Cons.prems(2) evolves_valid_ref [OF ev] by simp
  from Cons.IH [OF rest this] obtain ds where
    ds: "cbs = (acc @ [d]) @ ds" "normalized_from h' h1 bs ds" by blast
  have "normalized_from h h1 (b # bs) (d # ds)"
    using st ds(2) blocks_loop_dict_evolves [OF rest] Cons.prems(2)
    by (intro normalized_from_Cons [where M = "{}"]) simp_all
  with ds(1) show ?case by auto
qed

lemma blocks_loop_dict_all_dicts:
  "\<forall>x \<in> set xs. dict_at h x \<noteq> None \<Longrightarrow> blocks_loop_dict S h xs acc = (h1, cbs)
     \<Longrightarrow> cbs = acc @ xs"
proof (induction xs arbitrary: h acc)
  case Nil
  then show ?case by simp
next
  case (Cons x xs)
  obtain h' d where st: "normalize_block_dict S h x = (h', d)" by fastforce
  with Cons.prems have rest: "blocks_loop_dict S h' xs (acc @ [d]) = (h1, cbs)" by simp
  have ev: "evolves {} h h'" by (rule normalize_block_dict_evolves [OF st])
  from Cons.prems(1) st have d: "d = x"
    by (auto simp: normalize_block_dict_def split: prod.splits)
  have "\<forall>y \<in> set xs. dict_at h' y \<noteq> None"
  proof
    fix y assume "y \<in> set xs"
    with Cons.prems(1) obtain a e where "dict_at h y = Some (a, e)" by fastforce
    from evolves_dict_at [OF ev this] show "dict_at h' y \<noteq> None" by auto
  qed
  from Cons.IH [OF this rest] d show ?case by simp
qed

lemma dict_get_Some:
  "dict_get h v k = Some x \<longleftrightarrow> (\<exists>a e. dict_at h v = Some (a, e) \<and> map_of e k = Some x)"
  by (auto simp: dict_get_def split: option.splits)

lemma evolves_dict_get:
  assumes "evolves M h h'" "dict_get h v k = Some x" "k = ''content'' \<longrightarrow> (\<forall>a. v = PRef a \<longrightarrow> a \<notin> M)"
  shows "dict_get h' v k = Some x"
proof -
  from assms(2) obtain a e where ae: "dict_at h v = Some (a, e)" "map_of e k = Some x"
    by (auto simp: dict_get_Some)
  then have v: "v = PRef a" by (simp add: dict_at_Some)
  from evolves_dict_at [OF assms(1) ae(1)] obtain e' where
    e': "dict_at h' v = Some (a, e')" "dict_evolves (a \<in> M) e e'" by blast
  from assms(3) v have "k = ''content'' \<longrightarrow> \<not> a \<in> M" by simp
  from dict_evolves_same [OF e'(2) ae(2) this] e'(1) show ?thesis
    by (auto simp: dict_get_Some)
qed

lemma normalized_from_base:
  assumes "normalized_from h h1 bs xs" "evolves M h0 h" "\<forall>b \<in> set bs. valid_ref h0 b"
  shows "normalized_from h0 h1 bs xs"
  unfolding normalized_from_iff
proof (intro conjI allI impI)
  show "length xs = length bs" using assms(1) by (simp add: normalized_from_iff)
next
  fix i assume i: "i < length bs" and "dict_at h0 (bs ! i) \<noteq> None"
  then obtain a e where "dict_at h0 (bs ! i) = Some (a, e)" by auto
  from evolves_dict_at [OF assms(2) this] have "dict_at h (bs ! i) \<noteq> None" by auto
  with assms(1) i show "xs ! i = bs ! i" by (simp add: normalized_from_iff)
next
  fix i assume i: "i < length bs" and n: "dict_at h0 (bs ! i) = None"
  from i assms(3) have "valid_ref h0 (bs ! i)" by simp
  from evolves_not_dict [OF assms(2) this n] assms(1) i
  obtain a where "xs ! i = PRef a" "length h \<le> a" "text_tagged h1 (PRef a)"
    by (auto simp: normalized_from_iff)
  with evolves_length [OF assms(2)]
  show "\<exists>a. xs ! i = PRef a \<and> length h0 \<le> a \<and> text_tagged h1 (PRef a)" by auto
qed

lemma normalized_all_dicts:
  assumes "normalized_from h0 h bs xs" "evolves M h0 h"
  shows "\<forall>x \<in> set xs. dict_at h x \<noteq> None"
proof
  fix x assume "x \<in> set xs"
  then obtain i where i: "i < length xs" "x = xs ! i" by (auto simp: in_set_conv_nth)
  with assms(1) have ib: "i < length bs" by (simp add: normalized_from_iff)
  show "dict_at h x \<noteq> None"
  proof (cases "dict_at h0 (bs ! i)")
    case None
    with assms(1) ib i obtain a where "x = PRef a" "text_tagged h (PRef a)"
      by (auto simp: normalized_from_iff)
    then show ?thesis by (auto simp: text_tagged_def dict_get_def split: option.splits)
  next
    case (Some ae)
    then obtain a e where ae: "dict_at h0 (bs ! i) = Some (a, e)" by (cases ae) auto
    with assms(1) ib i have "x = bs ! i" by (simp add: normalized_from_iff)
    with evolves_dict_at [OF assms(2) ae] show ?thesis by auto
  qed
qed

text \<open>The store after the dictionary branch has replaced the content of message \<open>m\<close>.\<close>

lemma content_replaced:
  assumes "dict_at h (PRef m) = Some (m, e)" "map_of e ''content'' = Some c"
    and "list_at h c = Some xs" "blocks_loop_dict S h xs [] = (h1, cbs)"
    and "format_message_with_system S h (PRef m) = (h2, res)"
  shows "dict_get h2 (PRef m) ''content'' = Some (PRef (length h1))
       \<and> list_at h2 (PRef (length h1)) = Some cbs \<and> evolves {m} h1 h2 \<and> evolves {} h h1"
proof -
  have h2: "h2 = dict_setitem (h1 @ [OList cbs]) m ''content'' (PRef (length h1))"
    using format_message_with_system_dict_list [OF assms(1-4)] assms(5) by simp
  have ev1: "evolves {} h h1" by (rule blocks_loop_dict_evolves [OF assms(4)])
  from evolves_dict_at [OF ev1 assms(1)] obtain e1 where
    e1: "dict_at h1 (PRef m) = Some (m, e1)" "dict_evolves (m \<in> {}) e e1" by blast
  then have m1: "m < length h1" "h1 ! m = ODict e1" by (simp_all add: dict_at_Some)
  from dict_evolves_key [OF e1(2)] assms(2) have c1: "map_of e1 ''content'' \<noteq> None" by simp
  have d2: "dict_at (h1 @ [OList cbs]) (PRef m) = Some (m, e1)"
    using m1 by (simp add: dict_at_def nth_append)
  have "evolves {m} (h1 @ [OList cbs]) h2"
    unfolding h2 by (rule dict_setitem_content_evolves [OF d2 c1])
  then have ev2: "evolves {m} h1 h2"
    using evolves_alloc evolves_trans by blast
  have "h2 = (h1 @ [OList cbs])[m := ODict (AList.update ''content'' (PRef (length h1)) e1)]"
    using m1 by (simp add: h2 dict_setitem_def nth_append)
  then show ?thesis using m1 ev1 ev2
    by (simp add: dict_get_def dict_at_def list_at_def nth_append update_conv' nth_list_update)
qed

lemma step_establishes:
  assumes "evolves M h0 h" "dict_get h (PRef m) ''content'' = Some c"
    and "list_at h0 c = Some bs" "\<forall>b \<in> set bs. valid_ref h0 b"
    and "format_message_with_system S h (PRef m) = (h2, res)"
  shows "content_normalized h0 bs h2 (PRef m)"
proof -
  from assms(2) obtain e where e: "dict_at h (PRef m) = Some (m, e)" "map_of e ''content'' = Some c"
    by (auto simp: dict_get_Some dict_at_Some)
  have l: "list_at h c = Some bs" by (rule evolves_list_at [OF assms(1,3)])
  obtain h1 cbs where bl: "blocks_loop_dict S h bs [] = (h1, cbs)" by fastforce
  from content_replaced [OF e l bl assms(5)] have r:
    "dict_get h2 (PRef m) ''content'' = Some (PRef (length h1))"
    "list_at h2 (PRef (length h1)) = Some cbs" "evolves {m} h1 h2" "evolves {} h h1" by simp_all
  have "\<forall>b \<in> set bs. valid_ref h b" using assms(4) evolves_valid_ref [OF assms(1)] by blast
  from blocks_loop_dict_out [OF bl this] have "normalized_from h h1 bs cbs" by simp
  from normalized_from_base [OF this assms(1,4)] have "normalized_from h0 h1 bs cbs" .
  from normalized_from_evolves [OF this r(3)] have n: "normalized_from h0 h2 bs cbs" .
  have "length h0 \<le> length h1"
    using evolves_length [OF assms(1)] evolves_length [OF r(4)] by simp
  with r n show ?thesis unfolding content_normalized_iff by blast
qed

lemma step_reestablishes:
  assumes "evolves M h0 h" "content_normalized h0 bs h (PRef m)"
    and "format_message_with_system S h (PRef m) = (h2, res)"
  shows "content_normalized h0 bs h2 (PRef m)"
proof -
  from assms(2) obtain l xs where lx: "dict_get h (PRef m) ''content'' = Some (PRef l)"
      "list_at h (PRef l) = Some xs" "normalized_from h0 h bs xs"
    unfolding content_normalized_iff by blast
  from lx(1) obtain e where e: "dict_at h (PRef m) = Some (m, e)"
      "map_of e ''content'' = Some (PRef l)"
    by (auto simp: dict_get_Some dict_at_Some)
  obtain h1 cbs where bl: "blocks_loop_dict S h xs [] = (h1, cbs)" by fastforce
  from blocks_loop_dict_all_dicts [OF normalized_all_dicts [OF lx(3) assms(1)] bl]
  have cbs: "cbs = xs" by simp
  from content_replaced [OF e lx(2) bl assms(3)] have r:
    "dict_get h2 (PRef m) ''content'' = Some (PRef (length h1))"
    "list_at h2 (PRef (length h1)) = Some cbs" "evolves {m} h1 h2" "evolves {} h h1" by simp_all
  have "normalized_from h0 h1 bs xs" by (rule normalized_from_evolves [OF lx(3) r(4)])
  from normalized_from_evolves [OF this r(3)] have n: "normalized_from h0 h2 bs xs" .
  have "length h0 \<le> length h1"
    using evolves_length [OF assms(1)] evolves_length [OF r(4)] by simp
  with r n cbs show ?thesis unfolding content_normalized_iff by blast
qed

lemma step_preserves:
  assumes "content_normalized h0 bs h (PRef m)" "x \<noteq> PRef m"
    and "format_message_with_system S h x = (h2, res)"
  shows "content_normalized h0 bs h2 (PRef m)"
proof -
  from assms(1) obtain l xs where lx: "dict_get h (PRef m) ''content'' = Some (PRef l)"
      "length h0 \<le> l" "list_at h (PRef l) = Some xs" "normalized_from h0 h bs xs"
    unfolding content_normalized_iff by blast
  have ev: "evolves {a. x = PRef a} h h2" by (rule format_message_with_system_evolves [OF assms(3)])
  have "dict_get h2 (PRef m) ''content'' = Some (PRef l)"
    using assms(2) by (intro evolves_dict_get [OF ev lx(1)]) auto
  moreover have "list_at h2 (PRef l) = Some xs" by (rule evolves_list_at [OF ev lx(3)])
  moreover have "normalized_from h0 h2 bs xs" by (rule normalized_from_evolves [OF lx(4) ev])
  ultimately show ?thesis using lx(2) unfolding content_normalized_iff by blast
qed

lemma loop_keeps_normalized:
  "content_normalized h0 bs h (PRef m) \<Longrightarrow> evolves UNIV h0 h
     \<Longrightarrow> format_with_system_loop S h msgs acc = (h', res)
     \<Longrightarrow> content_normalized h0 bs h' (PRef m)"
proof (induction msgs arbitrary: h acc)
  case Nil
  then show ?case by simp
next
  case (Cons x msgs)
  obtain h1 r where st: "format_message_with_system S h x = (h1, r)" by fastforce
  have ev: "evolves UNIV h0 h1"
    using Cons.prems(2) format_message_with_system_evolves [OF st]
    by (meson evolves_mono evolves_trans subset_UNIV)
  have n1: "content_normalized h0 bs h1 (PRef m)"
  proof (cases "x = PRef m")
    case True
    with st Cons.prems(1,2) show ?thesis by (auto intro: step_reestablishes)
  next
    case False
    with st Cons.prems(1) show ?thesis by (auto intro: step_preserves)
  qed
  show ?case
  proof (cases r)
    case (Inl err)
    with Cons.prems(3) st n1 show ?thesis by simp
  next
    case (Inr d)
    with Cons.prems(3) st have "format_with_system_loop S h1 msgs (acc @ [d]) = (h', res)" by simp
    from Cons.IH [OF n1 ev this] show ?thesis .
  qed
qed

lemma loop_normalizes:
  "PRef m \<in> set msgs \<Longrightarrow> dict_get h (PRef m) ''content'' = Some c \<Longrightarrow> evolves UNIV h0 h
     \<Longrightarrow> list_at h0 c = Some bs \<Longrightarrow> \<forall>b \<in> set bs. valid_ref h0 b
     \<Longrightarrow> format_with_system_loop S h msgs acc = (h', Inr out)
     \<Longrightarrow> content_normalized h0 bs h' (PRef m)"
proof (induction msgs arbitrary: h acc)
  case Nil
  then show ?case by simp
next
  case (Cons x msgs)
  obtain h1 r where st: "format_message_with_system S h x = (h1, r)" by fastforce
  with Cons.prems(6) obtain d where r: "r = Inr d"
    and rest: "format_with_system_loop S h1 msgs (acc @ [d]) = (h', Inr out)"
    by (cases r) auto
  have ev1: "evolves {a. x = PRef a} h h1" by (rule format_message_with_system_evolves [OF st])
  have ev: "evolves UNIV h0 h1"
    using Cons.prems(3) ev1 by (meson evolves_mono evolves_trans subset_UNIV)
  show ?case
  proof (cases "x = PRef m")
    case True
    with st Cons.prems have "content_normalized h0 bs h1 (PRef m)"
      by (auto intro: step_establishes)
    from loop_keeps_normalized [OF this ev rest] show ?thesis .
  next
    case False
    with Cons.prems(1) have "PRef m \<in> set msgs" by simp
    moreover have "dict_get h1 (PRef m) ''content'' = Some c"
      using False by (intro evolves_dict_get [OF ev1 Cons.prems(2)]) auto
    ultimately show ?thesis using ev Cons.prems(4,5) rest by (rule Cons.IH)
  qed
qed

lemma loop_tags:
  "PRef m \<in> set msgs \<Longrightarrow> dict_get h (PRef m) ''content'' = Some c \<Longrightarrow> list_at h c = Some bs
     \<Longrightarrow> b \<in> set bs \<Longrightarrow> taggable h b
     \<Longrightarrow> format_with_system_loop S h msgs acc = (h', Inr out)
     \<Longrightarrow> text_tagged h' b"
proof (induction msgs arbitrary: h acc)
  case Nil
  then show ?case by simp
next
  case (Cons x msgs)
  obtain h1 r where st: "format_message_with_system S h x = (h1, r)" by fastforce
  with Cons.prems(6) obtain d where r: "r = Inr d"
    and rest: "format_with_system_loop S h1 msgs (acc @ [d]) = (h', Inr out)"
    by (cases r) auto
  have ev1: "evolves {a. x = PRef a} h h1" by (rule format_message_with_system_evolves [OF st])
  show ?case
  proof (cases "x = PRef m")
    case True
    from Cons.prems(2) obtain e where e: "dict_at h (PRef m) = Some (m, e)"
        "map_of e ''content'' = Some c"
      by (auto simp: dict_get_Some dict_at_Some)
    obtain h1' cbs where bl: "blocks_loop_dict S h bs [] = (h1', cbs)" by fastforce
    from content_replaced [OF e Cons.prems(3) bl st [unfolded True]]
    have "evolves {m} h1' h1" by simp
    moreover have "text_tagged h1' b" by (rule blocks_loop_dict_tags [OF Cons.prems(4,5) bl])
    ultimately have "text_tagged h1 b" by (rule text_tagged_evolves)
    with format_with_system_loop_evolves [OF rest] show ?thesis by (rule text_tagged_evolves)
  next
    case False
    with Cons.prems(1) have "PRef m \<in> set msgs" by simp
    moreover have "dict_get h1 (PRef m) ''content'' = Some c"
      using False by (intro evolves_dict_get [OF ev1 Cons.prems(2)]) auto
    moreover have "list_at h1 c = Some bs" by (rule evolves_list_at [OF ev1 Cons.prems(3)])
    moreover have "taggable h1 b" by (rule taggable_evolves [OF ev1 Cons.prems(5)])
    ultimately show ?thesis using Cons.prems(4) rest by (intro Cons.IH [of h1]) 
  qed
qed

lemma list_at_valid: "list_at h c = Some bs \<Longrightarrow> \<exists>a. c = PRef a \<and> a < length h"
  by (auto simp: list_at_Some)

text \<open>
  C9. Building the streaming request writes to the caller's objects. For a call of
  \<^verbatim>\<open>_format_messages_with_system\<close> that returns, and a message of the list given as
  a dictionary whose \<^verbatim>\<open>content\<close> is a list \<open>bs\<close> (of allocated values): every block of
  \<open>bs\<close> that is a dictionary with a \<^verbatim>\<open>text\<close> key and no \<^verbatim>\<open>type\<close> key is, after the
  call, the same dictionary with \<^verbatim>\<open>'type': 'text'\<close>; and the \<^verbatim>\<open>content\<close> entry of
  the message dictionary refers to a list object allocated by the call, which holds the
  normalised blocks. So the entry no longer refers to the caller's list.
\<close>

theorem format_messages_with_system_mutates_caller:
  assumes "format_messages_with_system S h msgs system_prompt = (h', Inr out)"
    and "PRef m \<in> set msgs"
    and "dict_get h (PRef m) ''content'' = Some c" and "list_at h c = Some bs"
    and "\<forall>b \<in> set bs. valid_ref h b"
  shows "(\<forall>b \<in> set bs. untagged_text_dict h b \<longrightarrow> text_tagged h' b)
       \<and> content_normalized h bs h' (PRef m)
       \<and> dict_get h' (PRef m) ''content'' \<noteq> Some c"
proof -
  obtain h1 acc where loop: "format_with_system_loop S h1 msgs acc = (h', Inr out)"
    and ev: "evolves {} h h1"
    using assms(1)
    by (auto simp: format_messages_with_system_def alloc_def split: option.splits if_splits
             intro: evolves_refl evolves_alloc)
  have c1: "dict_get h1 (PRef m) ''content'' = Some c"
    by (rule evolves_dict_get [OF ev assms(3)]) simp
  have l1: "list_at h1 c = Some bs" by (rule evolves_list_at [OF ev assms(4)])
  have tags: "\<forall>b \<in> set bs. untagged_text_dict h b \<longrightarrow> text_tagged h' b"
  proof (intro ballI impI)
    fix b assume b: "b \<in> set bs" "untagged_text_dict h b"
    then have "taggable h1 b" by (intro taggable_evolves [OF ev] untagged_taggable)
    from loop_tags [OF assms(2) c1 l1 b(1) this loop] show "text_tagged h' b" .
  qed
  have "evolves UNIV h h1" by (rule evolves_mono [OF ev]) simp
  from loop_normalizes [OF assms(2) c1 this assms(4,5) loop]
  have norm: "content_normalized h bs h' (PRef m)" .
  then obtain l where "dict_get h' (PRef m) ''content'' = Some (PRef l)" "length h \<le> l"
    unfolding content_normalized_iff by blast
  with list_at_valid [OF assms(4)] have "dict_get h' (PRef m) ''content'' \<noteq> Some c" by auto
  with tags norm show ?thesis by simp
qed

lemma example_blocks_run:
  "format_messages_with_system example_str example_blocks_store [PRef 2] None =
     (example_blocks_store_after, Inr [PRef 2])"
  by (simp add: example_blocks_store_def example_blocks_store_after_def store_ops fmt_defs)

theorem format_messages_with_system_mutates_caller_witness:
  "format_messages_with_system example_str example_blocks_store [PRef 2] None =
     (example_blocks_store_after, Inr [PRef 2])
   \<and> dict_get example_blocks_store (PRef 2) ''content'' = Some (PRef 1)
   \<and> list_at example_blocks_store (PRef 1) = Some [PRef 0, PStr ''there'']
   \<and> untagged_text_dict example_blocks_store (PRef 0)
   \<and> text_tagged example_blocks_store_after (PRef 0)
   \<and> content_normalized example_blocks_store [PRef 0, PStr ''there''] example_blocks_store_after (PRef 2)
   \<and> dict_get example_blocks_store_after (PRef 2) ''content'' = Some (PRef 4)
   \<and> list_at example_blocks_store_after (PRef 4) = Some [PRef 0, PRef 3]"
proof -
  have 1: "PRef 2 \<in> set [PRef 2 :: pyval]" by simp
  have 2: "dict_get example_blocks_store (PRef 2) ''content'' = Some (PRef 1)"
    by (simp add: example_blocks_store_def dict_get_def dict_at_def)
  have 3: "list_at example_blocks_store (PRef 1) = Some [PRef 0, PStr ''there'']"
    by (simp add: example_blocks_store_def list_at_def)
  have 4: "\<forall>b \<in> set [PRef 0, PStr ''there'']. valid_ref example_blocks_store b"
    by (simp add: example_blocks_store_def valid_ref_def)
  have 5: "untagged_text_dict example_blocks_store (PRef 0)"
    by (simp add: example_blocks_store_def untagged_text_dict_def dict_at_def)
  have 6: "dict_get example_blocks_store_after (PRef 2) ''content'' = Some (PRef 4)"
    "list_at example_blocks_store_after (PRef 4) = Some [PRef 0, PRef 3]"
    by (simp_all add: example_blocks_store_after_def dict_get_def dict_at_def list_at_def)
  from format_messages_with_system_mutates_caller [OF example_blocks_run 1 2 3 4] 5
  show ?thesis using example_blocks_run 2 3 6 by simp
qed

section \<open>Role and content in the non-streaming request\<close>

lemma msg_field_valid: "msg_field h msg k = Some x \<Longrightarrow> valid_ref h msg"
  by (auto simp: msg_field_def dict_at_def getattr_def valid_ref_def
           split: option.splits pyval.splits if_splits)

lemma dict_at_append: "valid_ref h v \<Longrightarrow> dict_at (h @ new) v = dict_at h v"
  by (auto simp: dict_at_def valid_ref_def nth_append split: pyval.splits)

lemma getattr_append: "valid_ref h v \<Longrightarrow> getattr (h @ new) v k = getattr h v k"
  by (auto simp: getattr_def valid_ref_def nth_append split: pyval.splits)

lemma msg_field_append: "valid_ref h v \<Longrightarrow> msg_field (h @ new) v k = msg_field h v k"
  by (simp add: msg_field_def dict_at_append getattr_append split: option.splits)

lemma dict_get_append: "valid_ref h v \<Longrightarrow> dict_get (h @ new) v k = dict_get h v k"
  by (simp add: dict_get_def dict_at_append)

lemma format_message_fields:
  assumes "msg_field h msg ''role'' = Some r" "msg_field h msg ''content'' = Some c"
    and "format_message S h msg = (h1, d)"
  shows "(\<exists>new. h1 = h @ new) \<and> valid_ref h1 d
       \<and> dict_get h1 d ''role'' = Some r \<and> dict_get h1 d ''content'' = Some c"
proof (cases "dict_at h msg")
  case None
  with assms(1,2) have "getattr h msg ''role'' = Some r" "getattr h msg ''content'' = Some c"
    by (simp_all add: msg_field_def)
  with None assms(3) have "h1 = h @ [ODict [(''role'', r), (''content'', c)]]" "d = PRef (length h)"
    by (simp_all add: format_message_def alloc_def)
  then show ?thesis by (simp add: dict_get_def dict_at_def valid_ref_def)
next
  case (Some ae)
  with assms(3) have "h1 = h" "d = msg" by (simp_all add: format_message_def)
  moreover from Some assms(1,2) have "dict_get h msg ''role'' = Some r"
      "dict_get h msg ''content'' = Some c"
    by (simp_all add: msg_field_def dict_get_def)
  ultimately show ?thesis using msg_field_valid [OF assms(1)] by simp
qed

lemma format_messages_loop_fields:
  "\<forall>msg \<in> set msgs. msg_field h msg ''role'' \<noteq> None \<and> msg_field h msg ''content'' \<noteq> None
   \<Longrightarrow> format_messages_loop S h msgs acc = (h', out)
   \<Longrightarrow> \<exists>new ds. h' = h @ new \<and> out = acc @ ds \<and> length ds = length msgs
         \<and> (\<forall>i < length msgs.
               dict_get h' (ds ! i) ''role'' = msg_field h (msgs ! i) ''role''
             \<and> dict_get h' (ds ! i) ''content'' = msg_field h (msgs ! i) ''content'')"
proof (induction msgs arbitrary: h acc)
  case Nil
  then show ?case by simp
next
  case (Cons msg msgs)
  from Cons.prems(1) obtain r c where rc: "msg_field h msg ''role'' = Some r"
      "msg_field h msg ''content'' = Some c" by auto
  obtain h1 d where st: "format_message S h msg = (h1, d)" by fastforce
  with Cons.prems(2) have rest: "format_messages_loop S h1 msgs (acc @ [d]) = (h', out)" by simp
  from format_message_fields [OF rc st] obtain new1 where
    h1: "h1 = h @ new1" and d: "valid_ref h1 d" "dict_get h1 d ''role'' = Some r"
      "dict_get h1 d ''content'' = Some c" by blast
  have keep: "msg_field h1 x k = msg_field h x k" if "x \<in> set msgs" for x k
  proof -
    from that Cons.prems(1) have "msg_field h x ''role'' \<noteq> None" by simp
    then have "valid_ref h x" by (auto dest: msg_field_valid)
    then show ?thesis by (simp add: h1 msg_field_append)
  qed
  with Cons.prems(1) have
    "\<forall>x \<in> set msgs. msg_field h1 x ''role'' \<noteq> None \<and> msg_field h1 x ''content'' \<noteq> None"
    by simp
  from Cons.IH [OF this rest] obtain new ds where
    ih: "h' = h1 @ new" "out = (acc @ [d]) @ ds" "length ds = length msgs"
      "\<forall>i < length msgs.
         dict_get h' (ds ! i) ''role'' = msg_field h1 (msgs ! i) ''role''
       \<and> dict_get h' (ds ! i) ''content'' = msg_field h1 (msgs ! i) ''content''"
    by blast
  have head: "dict_get h' d k = dict_get h1 d k" for k
    using d(1) by (simp add: ih(1) dict_get_append)
  have "\<forall>i < length (msg # msgs).
          dict_get h' ((d # ds) ! i) ''role'' = msg_field h ((msg # msgs) ! i) ''role''
        \<and> dict_get h' ((d # ds) ! i) ''content'' = msg_field h ((msg # msgs) ! i) ''content''"
  proof (intro allI impI)
    fix i assume "i < length (msg # msgs)"
    then show "dict_get h' ((d # ds) ! i) ''role'' = msg_field h ((msg # msgs) ! i) ''role''
        \<and> dict_get h' ((d # ds) ! i) ''content'' = msg_field h ((msg # msgs) ! i) ''content''"
      using head d rc ih(4) keep by (cases i) auto
  qed
  moreover have "h' = h @ (new1 @ new)" "out = acc @ (d # ds)" "length (d # ds) = length (msg # msgs)"
    using ih h1 by simp_all
  ultimately show ?case by blast
qed

text \<open>
  C5. When every message of the list has a role and a scalar string content, given
  either as the keys of a dictionary or as the attributes of an object, the message list
  of the request that \<^verbatim>\<open>generate\<close> builds is the list \<^verbatim>\<open>_format_messages\<close> returns;
  it has the length of the input, and its entry at each position is a dictionary whose
  \<^verbatim>\<open>role\<close> and \<^verbatim>\<open>content\<close> are those of the input message at that position.
\<close>

theorem format_messages_keeps_role_and_content:
  assumes "\<forall>msg \<in> set msgs. (\<exists>r. msg_field h msg ''role'' = Some r)
                          \<and> (\<exists>s. msg_field h msg ''content'' = Some (PStr s))"
    and "format_messages S h msgs = (h', formatted)"
  shows "req_messages (generate_request self formatted kwargs) = formatted
       \<and> length formatted = length msgs
       \<and> (\<forall>i < length msgs.
             dict_get h' (formatted ! i) ''role'' = msg_field h (msgs ! i) ''role''
           \<and> dict_get h' (formatted ! i) ''content'' = msg_field h (msgs ! i) ''content'')"
proof -
  from assms(1) have
    "\<forall>msg \<in> set msgs. msg_field h msg ''role'' \<noteq> None \<and> msg_field h msg ''content'' \<noteq> None"
    by auto
  from format_messages_loop_fields [OF this assms(2) [unfolded format_messages_def]]
  show ?thesis by (auto simp: generate_request_def)
qed

lemma example_dialogue_run:
  "format_messages example_str example_dialogue_store [PRef 0, PRef 1] =
     (example_dialogue_store @ [ODict [(''role'', PStr ''assistant''), (''content'', PStr ''4'')]],
      [PRef 0, PRef 2])"
  by (simp add: example_dialogue_store_def store_ops fmt_defs)

theorem format_messages_keeps_role_and_content_witness:
  "msg_field example_dialogue_store (PRef 0) ''role'' = Some (PStr ''user'')
   \<and> msg_field example_dialogue_store (PRef 0) ''content'' = Some (PStr ''2+2?'')
   \<and> msg_field example_dialogue_store (PRef 1) ''role'' = Some (PStr ''assistant'')
   \<and> msg_field example_dialogue_store (PRef 1) ''content'' = Some (PStr ''4'')
   \<and> format_messages example_str example_dialogue_store [PRef 0, PRef 1] =
       (example_dialogue_store @ [ODict [(''role'', PStr ''assistant''), (''content'', PStr ''4'')]],
        [PRef 0, PRef 2])
   \<and> req_messages (generate_request example_model [PRef 0, PRef 2] []) = [PRef 0, PRef 2]
   \<and> length [PRef 0, PRef 2 :: pyval] = length [PRef 0, PRef 1 :: pyval]
   \<and> dict_get (example_dialogue_store @ [ODict [(''role'', PStr ''assistant''), (''content'', PStr ''4'')]])
        (PRef 2) ''role'' = msg_field example_dialogue_store (PRef 1) ''role''
   \<and> dict_get (example_dialogue_store @ [ODict [(''role'', PStr ''assistant''), (''content'', PStr ''4'')]])
        (PRef 2) ''content'' = msg_field example_dialogue_store (PRef 1) ''content''"
proof -
  have f: "msg_field example_dialogue_store (PRef 0) ''role'' = Some (PStr ''user'')"
    "msg_field example_dialogue_store (PRef 0) ''content'' = Some (PStr ''2+2?'')"
    "msg_field example_dialogue_store (PRef 1) ''role'' = Some (PStr ''assistant'')"
    "msg_field example_dialogue_store (PRef 1) ''content'' = Some (PStr ''4'')"
    by (simp_all add: example_dialogue_store_def msg_field_def dict_at_def getattr_def)
  then have "\<forall>msg \<in> set [PRef 0, PRef 1].
      (\<exists>r. msg_field example_dialogue_store msg ''role'' = Some r)
    \<and> (\<exists>s. msg_field example_dialogue_store msg ''content'' = Some (PStr s))"
    by simp
  from format_messages_keeps_role_and_content [OF this example_dialogue_run, of example_model "[]"]
  have "req_messages (generate_request example_model [PRef 0, PRef 2] []) = [PRef 0, PRef 2]"
    and "\<forall>i < 2.
      dict_get (example_dialogue_store @ [ODict [(''role'', PStr ''assistant''), (''content'', PStr ''4'')]])
         ([PRef 0, PRef 2] ! i) ''role'' = msg_field example_dialogue_store ([PRef 0, PRef 1] ! i) ''role''
    \<and> dict_get (example_dialogue_store @ [ODict [(''role'', PStr ''assistant''), (''content'', PStr ''4'')]])
         ([PRef 0, PRef 2] ! i) ''content'' = msg_field example_dialogue_store ([PRef 0, PRef 1] ! i) ''content''"
    by simp_all
  from this(1) this(2) [rule_format, of 1] show ?thesis using f example_dialogue_run by simp
qed

section \<open>The system prompt\<close>

lemma format_with_system_loop_acc:
  "format_with_system_loop S h msgs acc =
     (case format_with_system_loop S h msgs [] of
        (h', Inl e) \<Rightarrow> (h', Inl e)
      | (h', Inr out) \<Rightarrow> (h', Inr (acc @ out)))"
proof (induction msgs arbitrary: h acc)
  case Nil
  then show ?case by simp
next
  case (Cons x msgs)
  obtain h1 r where st: "format_message_with_system S h x = (h1, r)" by fastforce
  show ?case
  proof (cases r)
    case (Inl e)
    with st show ?thesis by simp
  next
    case (Inr d)
    have "format_with_system_loop S h (x # msgs) acc = format_with_system_loop S h1 msgs (acc @ [d])"
      using st Inr by simp
    also have "\<dots> = (case format_with_system_loop S h1 msgs [] of
        (h', Inl e) \<Rightarrow> (h', Inl e)
      | (h', Inr out) \<Rightarrow> (h', Inr ((acc @ [d]) @ out)))"
      by (rule Cons.IH)
    finally have lhs: "format_with_system_loop S h (x # msgs) acc =
      (case format_with_system_loop S h1 msgs [] of
        (h', Inl e) \<Rightarrow> (h', Inl e)
      | (h', Inr out) \<Rightarrow> (h', Inr (acc @ d # out)))"
      by (simp split: prod.splits sum.splits)
    have "format_with_system_loop S h (x # msgs) [] = format_with_system_loop S h1 msgs [d]"
      using st Inr by simp
    also have "\<dots> = (case format_with_system_loop S h1 msgs [] of
        (h', Inl e) \<Rightarrow> (h', Inl e)
      | (h', Inr out) \<Rightarrow> (h', Inr ([d] @ out)))"
      by (rule Cons.IH)
    finally have rhs: "format_with_system_loop S h (x # msgs) [] =
      (case format_with_system_loop S h1 msgs [] of
        (h', Inl e) \<Rightarrow> (h', Inl e)
      | (h', Inr out) \<Rightarrow> (h', Inr (d # out)))"
      by (simp split: prod.splits sum.splits)
    show ?thesis unfolding lhs rhs by (auto split: prod.splits sum.splits)
  qed
qed

lemma format_with_system_loop_length:
  "format_with_system_loop S h msgs acc = (h', Inr out) \<Longrightarrow> length out = length acc + length msgs"
proof (induction msgs arbitrary: h acc)
  case Nil
  then show ?case by simp
next
  case (Cons x msgs)
  obtain h1 r where st: "format_message_with_system S h x = (h1, r)" by fastforce
  with Cons.prems obtain d where "format_with_system_loop S h1 msgs (acc @ [d]) = (h', Inr out)"
    by (cases r) auto
  from Cons.IH [OF this] show ?case by simp
qed

lemma set_update_subset: "set (AList.update k v e) \<subseteq> insert (k, v) (set e)"
  by (induction e) auto

lemma unreferenced_append:
  "unreferenced (h @ [ob]) s \<longleftrightarrow> unreferenced h s \<and> PRef s \<notin> set (refs_of ob)"
  by (auto simp: unreferenced_def)

lemma unreferenced_update:
  assumes "unreferenced h s" "PRef s \<notin> set (refs_of ob)"
  shows "unreferenced (h[a := ob]) s"
  using assms set_update_subset_insert [of h a ob] by (auto simp: unreferenced_def)

lemma unreferenced_nth:
  "unreferenced h s \<Longrightarrow> a < length h \<Longrightarrow> PRef s \<notin> set (refs_of (h ! a))"
  by (simp add: unreferenced_def)

lemma unreferenced_list:
  assumes "unreferenced h s" "list_at h c = Some bs"
  shows "PRef s \<notin> set bs"
proof -
  from assms(2) obtain a where "a < length h" "h ! a = OList bs" by (auto simp: list_at_Some)
  with unreferenced_nth [OF assms(1), of a] show ?thesis by simp
qed

lemma unreferenced_attr:
  assumes "unreferenced h s" "getattr h x k = Some v"
  shows "v \<noteq> PRef s"
proof -
  from assms(2) obtain a at where a: "a < length h" "h ! a = OObj at" "map_of at k = Some v"
    by (auto simp: getattr_Some)
  from unreferenced_nth [OF assms(1) a(1)] a(2) have "PRef s \<notin> snd ` set at" by simp
  moreover from a(3) have "v \<in> snd ` set at" by (force dest: map_of_SomeD)
  ultimately show ?thesis by blast
qed

lemma unreferenced_dict:
  assumes "unreferenced h s" "a < length h" "h ! a = ODict e"
  shows "PRef s \<notin> snd ` set e"
  using unreferenced_nth [OF assms(1,2)] assms(3) by simp

lemma unreferenced_entry:
  assumes "unreferenced h s" "dict_at h x = Some (a, e)" "map_of e k = Some v"
  shows "v \<noteq> PRef s"
proof -
  from assms(2) have a: "a < length h" "h ! a = ODict e" by (simp_all add: dict_at_Some)
  from assms(3) have "v \<in> snd ` set e" by (force dest: map_of_SomeD)
  with unreferenced_dict [OF assms(1) a] show ?thesis by blast
qed

lemma dict_setitem_untouched:
  assumes "unreferenced h s" "v \<noteq> PRef s" "a \<noteq> s"
  shows "unreferenced (dict_setitem h a k v) s \<and> dict_setitem h a k v ! s = h ! s"
proof (cases "a < length h \<and> (\<exists>e. h ! a = ODict e)")
  case True
  then obtain e where e: "a < length h" "h ! a = ODict e" by blast
  from unreferenced_dict [OF assms(1) e] assms(2) set_update_subset [of k v e]
  have "PRef s \<notin> set (refs_of (ODict (AList.update k v e)))" by auto
  from unreferenced_update [OF assms(1) this] e assms(3) show ?thesis
    by (simp add: dict_setitem_def)
next
  case False
  then have "dict_setitem h a k v = h"
    by (auto simp: dict_setitem_def split: pyobj.splits)
  with assms(1) show ?thesis by simp
qed

lemma ensure_type_untouched:
  assumes "unreferenced h s" "a \<noteq> s"
  shows "unreferenced (ensure_type h a e) s \<and> ensure_type h a e ! s = h ! s"
  using dict_setitem_untouched [OF assms(1) _ assms(2), of "PStr ''text''" "''type''"] assms(1)
  by (simp add: ensure_type_def)

lemma normalize_block_dict_untouched:
  assumes "unreferenced h s" "s < length h" "b \<noteq> PRef s" "normalize_block_dict S h b = (h1, d)"
  shows "unreferenced h1 s \<and> h1 ! s = h ! s \<and> d \<noteq> PRef s"
proof (cases "dict_at h b")
  case None
  with assms(4) have "h1 = h @ [text_block (PStr (py_str S h b))]" "d = PRef (length h)"
    by (simp_all add: normalize_block_dict_def alloc_def)
  with assms(1,2) show ?thesis
    by (simp add: unreferenced_append text_block_def nth_append)
next
  case (Some ae)
  then obtain a e where ae: "dict_at h b = Some (a, e)" by (cases ae) auto
  with assms(4) have r: "h1 = ensure_type h a e" "d = b" by (simp_all add: normalize_block_dict_def)
  from ae assms(3) have "a \<noteq> s" by (auto simp: dict_at_Some)
  from ensure_type_untouched [OF assms(1) this] r assms(3) show ?thesis by simp
qed

lemma normalize_block_attr_untouched:
  assumes "unreferenced h s" "s < length h" "b \<noteq> PRef s" "normalize_block_attr S h b = (h1, d)"
  shows "unreferenced h1 s \<and> h1 ! s = h ! s \<and> d \<noteq> PRef s"
proof (cases "getattr h b ''text''")
  case None
  with assms(4) have "normalize_block_dict S h b = (h1, d)"
    by (simp add: normalize_block_attr_def normalize_block_dict_def)
  from normalize_block_dict_untouched [OF assms(1-3) this] show ?thesis .
next
  case (Some t)
  with assms(4) have "h1 = h @ [text_block t]" "d = PRef (length h)"
    by (simp_all add: normalize_block_attr_def alloc_def)
  with assms(1,2) unreferenced_attr [OF assms(1) Some] show ?thesis
    by (simp add: unreferenced_append text_block_def nth_append)
qed

lemma blocks_loop_dict_untouched:
  "unreferenced h s \<Longrightarrow> s < length h \<Longrightarrow> PRef s \<notin> set bs \<Longrightarrow> PRef s \<notin> set acc
     \<Longrightarrow> blocks_loop_dict S h bs acc = (h1, cbs)
     \<Longrightarrow> unreferenced h1 s \<and> h1 ! s = h ! s \<and> PRef s \<notin> set cbs"
proof (induction bs arbitrary: h acc)
  case Nil
  then show ?case by simp
next
  case (Cons b bs)
  obtain h' d where st: "normalize_block_dict S h b = (h', d)" by fastforce
  with Cons.prems have rest: "blocks_loop_dict S h' bs (acc @ [d]) = (h1, cbs)" by simp
  from Cons.prems(3) have "b \<noteq> PRef s" by auto
  from normalize_block_dict_untouched [OF Cons.prems(1,2) this st]
  have u: "unreferenced h' s" "h' ! s = h ! s" "d \<noteq> PRef s" by simp_all
  have len: "s < length h'"
    using evolves_length [OF normalize_block_dict_evolves [OF st, of "{}"]] Cons.prems(2) by simp
  have "PRef s \<notin> set bs" "PRef s \<notin> set (acc @ [d])" using Cons.prems(3,4) u(3) by auto
  from Cons.IH [OF u(1) len this rest] u(2) show ?case by simp
qed

lemma blocks_loop_attr_untouched:
  "unreferenced h s \<Longrightarrow> s < length h \<Longrightarrow> PRef s \<notin> set bs \<Longrightarrow> PRef s \<notin> set acc
     \<Longrightarrow> blocks_loop_attr S h bs acc = (h1, cbs)
     \<Longrightarrow> unreferenced h1 s \<and> h1 ! s = h ! s \<and> PRef s \<notin> set cbs"
proof (induction bs arbitrary: h acc)
  case Nil
  then show ?case by simp
next
  case (Cons b bs)
  obtain h' d where st: "normalize_block_attr S h b = (h', d)" by fastforce
  with Cons.prems have rest: "blocks_loop_attr S h' bs (acc @ [d]) = (h1, cbs)" by simp
  from Cons.prems(3) have "b \<noteq> PRef s" by auto
  from normalize_block_attr_untouched [OF Cons.prems(1,2) this st]
  have u: "unreferenced h' s" "h' ! s = h ! s" "d \<noteq> PRef s" by simp_all
  have len: "s < length h'"
    using evolves_length [OF normalize_block_attr_evolves [OF st, of "{}"]] Cons.prems(2) by simp
  have "PRef s \<notin> set bs" "PRef s \<notin> set (acc @ [d])" using Cons.prems(3,4) u(3) by auto
  from Cons.IH [OF u(1) len this rest] u(2) show ?case by simp
qed

lemma collapse_blocks_untouched:
  assumes "unreferenced h s" "s < length h" "r \<noteq> PRef s" "PRef s \<notin> set cbs"
    and "collapse_blocks h r cbs = (h1, res)"
  shows "unreferenced h1 s \<and> h1 ! s = h ! s"
proof -
  have keep: "unreferenced (h @ [OList cbs, ODict [(''role'', r), (''content'', PRef (length h))]]) s
      \<and> (h @ [OList cbs, ODict [(''role'', r), (''content'', PRef (length h))]]) ! s = h ! s"
    using assms(1-4) by (auto simp: unreferenced_def nth_append)
  have one: "unreferenced (h @ [ODict [(''role'', r), (''content'', t)]]) s
      \<and> (h @ [ODict [(''role'', r), (''content'', t)]]) ! s = h ! s"
    if "t \<noteq> PRef s" for t
    using assms(1-3) that by (auto simp: unreferenced_def nth_append)
  from assms(5) consider "h1 = h"
    | "h1 = h @ [OList cbs, ODict [(''role'', r), (''content'', PRef (length h))]]"
    | b a e t where "cbs = [b]" "dict_at h b = Some (a, e)" "map_of e ''text'' = Some t"
        "h1 = h @ [ODict [(''role'', r), (''content'', t)]]"
    by (auto simp: collapse_blocks_def alloc_def Let_def
             split: list.splits option.splits if_splits prod.splits)
  then show ?thesis
  proof cases
    case 1
    with assms(1) show ?thesis by simp
  next
    case 2
    with keep show ?thesis by simp
  next
    case 3
    from unreferenced_entry [OF assms(1) 3(2,3)] one 3(4) show ?thesis by simp
  qed
qed

lemma format_message_with_system_untouched:
  assumes "unreferenced h s" "s < length h" "x \<noteq> PRef s"
    and "format_message_with_system S h x = (h2, res)"
  shows "unreferenced h2 s \<and> h2 ! s = h ! s"
proof (cases "\<exists>r c. getattr h x ''role'' = Some r \<and> getattr h x ''content'' = Some c")
  case True
  then obtain r c where rc: "getattr h x ''role'' = Some r" "getattr h x ''content'' = Some c"
    by blast
  show ?thesis
  proof (cases "list_at h c")
    case None
    with rc assms(4) have "h2 = h @ [ODict [(''role'', r), (''content'', PStr (py_str S h c))]]"
      by (auto simp: format_message_with_system_def alloc_def)
    with assms(1,2) unreferenced_attr [OF assms(1) rc(1)] show ?thesis
      by (auto simp: unreferenced_def nth_append)
  next
    case (Some blocks)
    obtain h1 cbs where bl: "blocks_loop_attr S h blocks [] = (h1, cbs)" by fastforce
    with rc Some assms(4) have co: "collapse_blocks h1 r cbs = (h2, res)"
      by (simp add: format_message_with_system_def)
    from blocks_loop_attr_untouched [OF assms(1,2) unreferenced_list [OF assms(1) Some] _ bl]
    have u: "unreferenced h1 s" "h1 ! s = h ! s" "PRef s \<notin> set cbs" by simp_all
    have len: "s < length h1"
      using evolves_length [OF blocks_loop_attr_evolves [OF bl, of "{}"]] assms(2) by simp
    from collapse_blocks_untouched [OF u(1) len unreferenced_attr [OF assms(1) rc(1)] u(3) co] u(2)
    show ?thesis by simp
  qed
next
  case False
  then have nrc: "(case (getattr h x ''role'', getattr h x ''content'') of
                     (Some r, Some c) \<Rightarrow> f r c | _ \<Rightarrow> g) = g" for f and g :: "heap \<times> (error + pyval)"
    by (auto split: option.splits)
  show ?thesis
  proof (cases "dict_at h x")
    case None
    with assms(4) have "h2 = h @ [ODict [(''role'', PStr ''user''), (''content'', PStr (py_str S h x))]]"
      unfolding format_message_with_system_def nrc by (auto simp: alloc_def)
    with assms(1,2) show ?thesis by (auto simp: unreferenced_def nth_append)
  next
    case (Some me)
    then obtain m e where me: "dict_at h x = Some (m, e)" by (cases me) auto
    then have x: "x = PRef m" by (simp add: dict_at_Some)
    show ?thesis
    proof (cases "\<exists>c bs. map_of e ''content'' = Some c \<and> list_at h c = Some bs")
      case True
      then obtain c bs where c: "map_of e ''content'' = Some c" "list_at h c = Some bs" by blast
      obtain h1 cbs where bl: "blocks_loop_dict S h bs [] = (h1, cbs)" by fastforce
      have h2: "h2 = dict_setitem (h1 @ [OList cbs]) m ''content'' (PRef (length h1))"
        using format_message_with_system_dict_list [OF me [unfolded x] c bl] assms(4) x by simp
      from blocks_loop_dict_untouched [OF assms(1,2) unreferenced_list [OF assms(1) c(2)] _ bl]
      have u: "unreferenced h1 s" "h1 ! s = h ! s" "PRef s \<notin> set cbs" by simp_all
      have len: "s < length h1"
        using evolves_length [OF blocks_loop_dict_evolves [OF bl, of "{}"]] assms(2) by simp
      have u1: "unreferenced (h1 @ [OList cbs]) s" "(h1 @ [OList cbs]) ! s = h ! s"
        using u len by (simp_all add: unreferenced_append nth_append)
      have "PRef (length h1) \<noteq> PRef s" "m \<noteq> s" using len assms(3) x by auto
      from dict_setitem_untouched [OF u1(1) this] u1(2) h2 show ?thesis by simp
    next
      case False
      with me assms(4) have "h2 = h"
        unfolding format_message_with_system_def nrc by (auto split: option.splits)
      with assms(1) show ?thesis by simp
    qed
  qed
qed

lemma format_with_system_loop_untouched:
  "unreferenced h s \<Longrightarrow> s < length h \<Longrightarrow> PRef s \<notin> set msgs
     \<Longrightarrow> format_with_system_loop S h msgs acc = (h', res)
     \<Longrightarrow> unreferenced h' s \<and> h' ! s = h ! s"
proof (induction msgs arbitrary: h acc)
  case Nil
  then show ?case by simp
next
  case (Cons x msgs)
  obtain h1 r where st: "format_message_with_system S h x = (h1, r)" by fastforce
  from Cons.prems(3) have "x \<noteq> PRef s" by auto
  from format_message_with_system_untouched [OF Cons.prems(1,2) this st]
  have u: "unreferenced h1 s" "h1 ! s = h ! s" by simp_all
  have len: "s < length h1"
    using evolves_length [OF format_message_with_system_evolves [OF st]] Cons.prems(2) by simp
  show ?case
  proof (cases r)
    case (Inl e)
    with Cons.prems(4) st u show ?thesis by simp
  next
    case (Inr d)
    with Cons.prems(4) st have "format_with_system_loop S h1 msgs (acc @ [d]) = (h', res)" by simp
    from Cons.IH [OF u(1) len _ this] Cons.prems(3) u(2) show ?thesis by simp
  qed
qed

lemma wf_heap_unreferenced:
  assumes "wf_heap h"
  shows "unreferenced (h @ [system_message p]) (length h)"
  unfolding unreferenced_def
proof
  fix ob assume "ob \<in> set (h @ [system_message p])"
  then consider "ob \<in> set h" | "ob = system_message p" by auto
  then show "PRef (length h) \<notin> set (refs_of ob)"
  proof cases
    case 1
    show ?thesis
    proof
      assume "PRef (length h) \<in> set (refs_of ob)"
      with assms 1 have "valid_ref h (PRef (length h))" by (auto simp: wf_heap_def)
      then show False by (simp add: valid_ref_def)
    qed
  next
    case 2
    then show ?thesis by (simp add: system_message_def)
  qed
qed

text \<open>
  C6. With a non-empty system prompt \<open>p\<close>, \<^verbatim>\<open>_format_messages_with_system\<close> allocates
  the message \<^verbatim>\<open>{'role': 'system', 'content': p}\<close> and returns it first, followed by
  what the same messages format to without a prompt; in a well-formed store the call
  leaves that first message untouched, and the messages after it are as many as the
  input's. On \<^verbatim>\<open>[{'role': 'user', 'content': '2+2?'}]\<close> with the prompt
  \<^verbatim>\<open>'Be terse'\<close> the result is exactly the system message followed by the user
  message.
\<close>

theorem system_prompt_prepended:
  "(p \<noteq> '''' \<longrightarrow>
      format_messages_with_system S h msgs (Some p) =
        (case format_messages_with_system S (h @ [system_message p]) msgs None of
           (h', Inl e) \<Rightarrow> (h', Inl e)
         | (h', Inr out) \<Rightarrow> (h', Inr (PRef (length h) # out))))
   \<and> (p \<noteq> '''' \<and> wf_heap h \<and> (\<forall>msg \<in> set msgs. valid_ref h msg) \<longrightarrow>
        (\<forall>h' out. format_messages_with_system S h msgs (Some p) = (h', Inr out) \<longrightarrow>
           (\<exists>rest. out = PRef (length h) # rest \<and> length rest = length msgs
                \<and> dict_at h' (PRef (length h)) =
                    Some (length h, [(''role'', PStr ''system''), (''content'', PStr p)]))))
   \<and> format_messages_with_system S
        [ODict [(''role'', PStr ''user''), (''content'', PStr ''2+2?'')]] [PRef 0] (Some ''Be terse'') =
       ([ODict [(''role'', PStr ''user''), (''content'', PStr ''2+2?'')],
         ODict [(''role'', PStr ''system''), (''content'', PStr ''Be terse'')]],
        Inr [PRef 1, PRef 0])"
proof (intro conjI impI allI)
  assume p: "p \<noteq> ''''"
  then show "format_messages_with_system S h msgs (Some p) =
        (case format_messages_with_system S (h @ [system_message p]) msgs None of
           (h', Inl e) \<Rightarrow> (h', Inl e)
         | (h', Inr out) \<Rightarrow> (h', Inr (PRef (length h) # out)))"
    using format_with_system_loop_acc [of S "h @ [system_message p]" msgs "[PRef (length h)]"]
    by (simp add: format_messages_with_system_def alloc_def system_message_def
          split: prod.splits sum.splits)
next
  fix h' out
  assume a: "p \<noteq> '''' \<and> wf_heap h \<and> (\<forall>msg \<in> set msgs. valid_ref h msg)"
    and run: "format_messages_with_system S h msgs (Some p) = (h', Inr out)"
  let ?h0 = "h @ [system_message p]"
  from a run have loop: "format_with_system_loop S ?h0 msgs [PRef (length h)] = (h', Inr out)"
    by (simp add: format_messages_with_system_def alloc_def system_message_def)
  from a have u: "unreferenced ?h0 (length h)" by (simp add: wf_heap_unreferenced)
  from a have nm: "PRef (length h) \<notin> set msgs" by (auto simp: valid_ref_def)
  from format_with_system_loop_untouched [OF u _ nm loop]
  have at: "h' ! length h = system_message p" by simp
  have len: "length h < length h'"
    using evolves_length [OF format_with_system_loop_evolves [OF loop]] by simp
  from loop format_with_system_loop_acc [of S ?h0 msgs "[PRef (length h)]"]
  obtain rest where rest: "out = PRef (length h) # rest"
    by (auto split: prod.splits sum.splits)
  from format_with_system_loop_length [OF loop] rest have "length rest = length msgs" by simp
  with rest at len
  show "\<exists>rest. out = PRef (length h) # rest \<and> length rest = length msgs
           \<and> dict_at h' (PRef (length h)) =
               Some (length h, [(''role'', PStr ''system''), (''content'', PStr p)])"
    by (simp add: dict_at_def system_message_def)
next
  show "format_messages_with_system S
        [ODict [(''role'', PStr ''user''), (''content'', PStr ''2+2?'')]] [PRef 0] (Some ''Be terse'') =
       ([ODict [(''role'', PStr ''user''), (''content'', PStr ''2+2?'')],
         ODict [(''role'', PStr ''system''), (''content'', PStr ''Be terse'')]],
        Inr [PRef 1, PRef 0])"
    by (simp add: store_ops fmt_defs)
qed

theorem system_prompt_prepended_witness:
  "''Be terse'' \<noteq> ''''
   \<and> wf_heap example_store
   \<and> valid_ref example_store (PRef 0)
   \<and> format_messages_with_system example_str example_store [PRef 0] (Some ''Be terse'') =
       (example_store @ [system_message ''Be terse''], Inr [PRef 1, PRef 0])
   \<and> format_messages_with_system example_str (example_store @ [system_message ''Be terse''])
        [PRef 0] None = (example_store @ [system_message ''Be terse''], Inr [PRef 0])
   \<and> dict_at (example_store @ [system_message ''Be terse'']) (PRef 1) =
       Some (1, [(''role'', PStr ''system''), (''content'', PStr ''Be terse'')])"
proof -
  have wf: "wf_heap example_store" "\<forall>msg \<in> set [PRef 0]. valid_ref example_store msg"
    by (simp_all add: wf_heap_def example_store_def valid_ref_def)
  have run: "format_messages_with_system example_str example_store [PRef 0] (Some ''Be terse'') =
       (example_store @ [system_message ''Be terse''], Inr [PRef 1, PRef 0])"
    by (simp add: example_store_def store_ops fmt_defs)
  have run0: "format_messages_with_system example_str (example_store @ [system_message ''Be terse''])
        [PRef 0] None = (example_store @ [system_message ''Be terse''], Inr [PRef 0])"
    by (simp add: example_store_def store_ops fmt_defs)
  from system_prompt_prepended [of "''Be terse''" example_str example_store "[PRef 0]"] wf run
  have "dict_at (example_store @ [system_message ''Be terse'']) (PRef (length example_store)) =
       Some (length example_store, [(''role'', PStr ''system''), (''content'', PStr ''Be terse'')])"
    by auto
  then show ?thesis using wf run run0 by (simp add: example_store_def)
qed

section \<open>Collapsing a single text block\<close>

lemma text_block_input_dict:
  "dict_at h b = Some (a, e) \<Longrightarrow> text_block_input h b \<longleftrightarrow> taggable h b"
  by (auto simp: text_block_input_def taggable_def map_of_eq_None_iff)

lemma text_block_input_evolves:
  assumes "evolves M h h'" "valid_ref h b" "text_block_input h b"
  shows "text_block_input h' b"
proof (cases "dict_at h b")
  case None
  from evolves_not_dict [OF assms(1,2) None] show ?thesis by (simp add: text_block_input_def)
next
  case (Some ae)
  then obtain a e where ae: "dict_at h b = Some (a, e)" by (cases ae) auto
  with assms(3) have "taggable h b" by (simp add: text_block_input_dict)
  with assms(1) have t: "taggable h' b" by (rule taggable_evolves)
  then obtain a' e' where "dict_at h' b = Some (a', e')" by (auto simp: taggable_def)
  with t show ?thesis by (simp add: text_block_input_dict)
qed

lemma normalize_block_dict_text:
  assumes "text_block_input h b" "normalize_block_dict S h b = (h1, d)"
  shows "text_tagged h1 d"
proof (cases "dict_at h b")
  case None
  with assms(2) have "h1 = h @ [text_block (PStr (py_str S h b))]" "d = PRef (length h)"
    by (simp_all add: normalize_block_dict_def alloc_def)
  then show ?thesis by (simp add: text_tagged_def dict_get_def dict_at_def text_block_def)
next
  case (Some ae)
  then obtain a e where ae: "dict_at h b = Some (a, e)" by (cases ae) auto
  with assms(1) have "taggable h b" by (simp add: text_block_input_dict)
  from normalize_block_dict_tags [OF this assms(2)] show ?thesis by simp
qed

lemma normalize_block_attr_text:
  assumes "text_block_input h b" "normalize_block_attr S h b = (h1, d)"
  shows "text_tagged h1 d"
proof (cases "getattr h b ''text''")
  case None
  with assms(2) have "normalize_block_dict S h b = (h1, d)"
    by (simp add: normalize_block_attr_def normalize_block_dict_def)
  from normalize_block_dict_text [OF assms(1) this] show ?thesis .
next
  case (Some t)
  with assms(2) have "h1 = h @ [text_block t]" "d = PRef (length h)"
    by (simp_all add: normalize_block_attr_def alloc_def)
  then show ?thesis by (simp add: text_tagged_def dict_get_def dict_at_def text_block_def)
qed

lemma blocks_loop_dict_text:
  "\<forall>b \<in> set bs. valid_ref h b \<and> text_block_input h b \<Longrightarrow> \<forall>x \<in> set acc. text_tagged h x
     \<Longrightarrow> blocks_loop_dict S h bs acc = (h1, cbs)
     \<Longrightarrow> length cbs = length acc + length bs \<and> (\<forall>x \<in> set cbs. text_tagged h1 x)"
proof (induction bs arbitrary: h acc)
  case Nil
  then show ?case by simp
next
  case (Cons b bs)
  obtain h' d where st: "normalize_block_dict S h b = (h', d)" by fastforce
  with Cons.prems have rest: "blocks_loop_dict S h' bs (acc @ [d]) = (h1, cbs)" by simp
  have ev: "evolves {} h h'" by (rule normalize_block_dict_evolves [OF st])
  have d: "text_tagged h' d" using Cons.prems(1) st by (auto intro: normalize_block_dict_text)
  have 1: "\<forall>b \<in> set bs. valid_ref h' b \<and> text_block_input h' b"
    using Cons.prems(1) evolves_valid_ref [OF ev] text_block_input_evolves [OF ev] by simp
  have 2: "\<forall>x \<in> set (acc @ [d]). text_tagged h' x"
    using Cons.prems(2) d text_tagged_evolves [OF ev] by auto
  from Cons.IH [OF 1 2 rest] show ?case by simp
qed

lemma blocks_loop_attr_text:
  "\<forall>b \<in> set bs. valid_ref h b \<and> text_block_input h b \<Longrightarrow> \<forall>x \<in> set acc. text_tagged h x
     \<Longrightarrow> blocks_loop_attr S h bs acc = (h1, cbs)
     \<Longrightarrow> length cbs = length acc + length bs \<and> (\<forall>x \<in> set cbs. text_tagged h1 x)"
proof (induction bs arbitrary: h acc)
  case Nil
  then show ?case by simp
next
  case (Cons b bs)
  obtain h' d where st: "normalize_block_attr S h b = (h', d)" by fastforce
  with Cons.prems have rest: "blocks_loop_attr S h' bs (acc @ [d]) = (h1, cbs)" by simp
  have ev: "evolves {} h h'" by (rule normalize_block_attr_evolves [OF st])
  have d: "text_tagged h' d" using Cons.prems(1) st by (auto intro: normalize_block_attr_text)
  have 1: "\<forall>b \<in> set bs. valid_ref h' b \<and> text_block_input h' b"
    using Cons.prems(1) evolves_valid_ref [OF ev] text_block_input_evolves [OF ev] by simp
  have 2: "\<forall>x \<in> set (acc @ [d]). text_tagged h' x"
    using Cons.prems(2) d text_tagged_evolves [OF ev] by auto
  from Cons.IH [OF 1 2 rest] show ?case by simp
qed

text \<open>
  What one iteration of the message loop does with a block list, in any store: the
  branch for messages with attributes collapses a single text block to its text and keeps
  two text blocks as a list; the branch for dictionary messages keeps a list of any
  length.
\<close>

lemma single_text_block_collapses:
  assumes "getattr h msg ''role'' = Some r" "getattr h msg ''content'' = Some c"
    and "list_at h c = Some [b]" "normalize_block_attr S h b = (h1, d)"
    and "dict_get h1 d ''type'' = Some (PStr ''text'')" "dict_get h1 d ''text'' = Some t"
  shows "format_message_with_system S h msg =
           (h1 @ [ODict [(''role'', r), (''content'', t)]], Inr (PRef (length h1)))"
proof -
  from assms(5,6) obtain a e where ae: "dict_at h1 d = Some (a, e)"
      "map_of e ''type'' = Some (PStr ''text'')" "map_of e ''text'' = Some t"
    by (auto simp: dict_get_Some)
  have "collapse_blocks h1 r [d] = (h1 @ [ODict [(''role'', r), (''content'', t)]], Inr (PRef (length h1)))"
    using ae by (simp add: collapse_blocks_def alloc_def)
  then show ?thesis using assms(1-4) by (simp add: format_message_with_system_def)
qed

lemma dict_message_keeps_list:
  assumes "dict_get h msg ''content'' = Some c" "list_at h c = Some bs"
    and "\<forall>b \<in> set bs. valid_ref h b \<and> text_block_input h b"
    and "format_message_with_system S h msg = (h', res)"
  shows "res = Inr msg
       \<and> (\<exists>l xs. dict_get h' msg ''content'' = Some (PRef l) \<and> list_at h' (PRef l) = Some xs
              \<and> length xs = length bs \<and> (\<forall>x \<in> set xs. text_tagged h' x))"
proof -
  from assms(1) obtain m e where me: "msg = PRef m" "dict_at h (PRef m) = Some (m, e)"
      "map_of e ''content'' = Some c"
    by (auto simp: dict_get_Some dict_at_Some)
  obtain h1 cbs where bl: "blocks_loop_dict S h bs [] = (h1, cbs)" by fastforce
  from format_message_with_system_dict_list [OF me(2,3) assms(2) bl] assms(4) me(1)
  have res: "res = Inr msg" by simp
  from content_replaced [OF me(2,3) assms(2) bl assms(4) [unfolded me(1)]]
  have r: "dict_get h' (PRef m) ''content'' = Some (PRef (length h1))"
    "list_at h' (PRef (length h1)) = Some cbs" "evolves {m} h1 h'" by simp_all
  from blocks_loop_dict_text [OF assms(3) _ bl]
  have t: "length cbs = length bs" "\<forall>x \<in> set cbs. text_tagged h1 x" by simp_all
  from t(2) text_tagged_evolves [OF r(3)] have "\<forall>x \<in> set cbs. text_tagged h' x" by blast
  with res r t(1) me(1) show ?thesis by blast
qed

lemma two_text_blocks_kept:
  assumes "getattr h msg ''role'' = Some r" "getattr h msg ''content'' = Some c"
    and "list_at h c = Some [b1, b2]"
    and "valid_ref h b1" "text_block_input h b1" "valid_ref h b2" "text_block_input h b2"
    and "format_message_with_system S h msg = (h', res)"
  shows "\<exists>d l x1 x2. res = Inr d \<and> dict_get h' d ''role'' = Some r
           \<and> dict_get h' d ''content'' = Some (PRef l) \<and> list_at h' (PRef l) = Some [x1, x2]
           \<and> text_tagged h' x1 \<and> text_tagged h' x2"
proof -
  obtain h1 cbs where bl: "blocks_loop_attr S h [b1, b2] [] = (h1, cbs)" by fastforce
  have "\<forall>b \<in> set [b1, b2]. valid_ref h b \<and> text_block_input h b" using assms(4-7) by simp
  from blocks_loop_attr_text [OF this _ bl]
  have t: "length cbs = 2" "\<forall>x \<in> set cbs. text_tagged h1 x" by simp_all
  from t(1) obtain x1 x2 where cbs: "cbs = [x1, x2]"
    by (cases cbs; cases "tl cbs") auto
  let ?h2 = "h1 @ [OList cbs, ODict [(''role'', r), (''content'', PRef (length h1))]]"
  have "collapse_blocks h1 r cbs = (?h2, Inr (PRef (Suc (length h1))))"
    using cbs by (simp add: collapse_blocks_def alloc_def)
  with assms(1-3,8) bl have res: "h' = ?h2" "res = Inr (PRef (Suc (length h1)))"
    by (simp_all add: format_message_with_system_def)
  have ev: "evolves {} h1 h'" unfolding res by (rule evolves_append)
  from t(2) cbs text_tagged_evolves [OF ev] have "text_tagged h' x1" "text_tagged h' x2" by simp_all
  moreover have "dict_get h' (PRef (Suc (length h1))) ''role'' = Some r"
    "dict_get h' (PRef (Suc (length h1))) ''content'' = Some (PRef (length h1))"
    "list_at h' (PRef (length h1)) = Some [x1, x2]"
    by (simp_all add: res(1) cbs dict_get_def dict_at_def list_at_def nth_append)
  ultimately show ?thesis using res(2) by blast
qed

text \<open>
  C3. The code does not collapse a message given as a dictionary. On the message list
  \<^verbatim>\<open>[{'role': 'user', 'content': [{'text': 'hi'}]}]\<close>, the one block is a dictionary
  with a \<^verbatim>\<open>text\<close> key and no \<^verbatim>\<open>type\<close> key; \<^verbatim>\<open>_format_messages_with_system\<close>
  and \<^verbatim>\<open>stream\<close> tag it \<^verbatim>\<open>'text'\<close> and leave the content of the message a
  one-element list holding that block, not the string \<^verbatim>\<open>'hi'\<close>. On the same block
  list held by a message with \<^verbatim>\<open>role\<close> and \<^verbatim>\<open>content\<close> attributes, the other
  branch of the same loop builds a message whose content is the string \<^verbatim>\<open>'hi'\<close>.
\<close>

theorem dict_message_single_block_not_collapsed:
  "dict_get example_single_block_store (PRef 2) ''content'' = Some (PRef 1)
   \<and> list_at example_single_block_store (PRef 1) = Some [PRef 0]
   \<and> untagged_text_dict example_single_block_store (PRef 0)
   \<and> format_messages_with_system example_str example_single_block_store [PRef 2] None =
       (example_single_block_store_after, Inr [PRef 2])
   \<and> stream example_stream_backend example_str example_model example_single_block_store [PRef 2]
        None None [] =
       (example_single_block_store_after,
        [MessageStart ''assistant'', ContentBlockStart PNone 0, ContentBlockDelta ''4'' 0,
         ContentBlockStop 0, MessageStop ''end_turn'' PNone], None)
   \<and> dict_get example_single_block_store_after (PRef 2) ''content'' = Some (PRef 3)
   \<and> list_at example_single_block_store_after (PRef 3) = Some [PRef 0]
   \<and> dict_get example_single_block_store_after (PRef 0) ''type'' = Some (PStr ''text'')
   \<and> dict_get example_single_block_store_after (PRef 0) ''text'' = Some (PStr ''hi'')
   \<and> dict_get example_single_block_store_after (PRef 2) ''content'' \<noteq> Some (PStr ''hi'')
   \<and> getattr example_sibling_store (PRef 2) ''content'' = Some (PRef 1)
   \<and> list_at example_sibling_store (PRef 1) = Some [PRef 0]
   \<and> untagged_text_dict example_sibling_store (PRef 0)
   \<and> format_messages_with_system example_str example_sibling_store [PRef 2] None =
       (example_sibling_store [0 := ODict [(''text'', PStr ''hi''), (''type'', PStr ''text'')]]
          @ [ODict [(''role'', PStr ''user''), (''content'', PStr ''hi'')]],
        Inr [PRef 3])"
  by (simp add: example_single_block_store_def example_single_block_store_after_def
        example_sibling_store_def example_stream_backend_def untagged_text_dict_def dict_get_def
        stream_def stream_request_def duplicate_keyword_def store_ops fmt_defs)

end
